theory Spec2Isabelle
  imports Main
begin

section \<open>Values, nodes and the object store\<close>

text \<open>
  \<^verbatim>\<open>type Data = any\<close>: a payload is an arbitrary JavaScript value. The embedding has one
  constructor for each kind of value that \<^verbatim>\<open>JSON.stringify\<close> tells apart:

  \<^item> \<^verbatim>\<open>undefined\<close>, \<^verbatim>\<open>null\<close>, the booleans and the strings;
  \<^item> the numbers: \<open>JNum n\<close> is a finite number other than \<^verbatim>\<open>-0\<close> (JSON writes and reads
    back every one of them exactly, so the integers stand for them all), and \<^verbatim>\<open>-0\<close>,
    \<^verbatim>\<open>NaN\<close>, \<^verbatim>\<open>Infinity\<close> and \<^verbatim>\<open>-Infinity\<close> are values of their own;
  \<^item> BigInts, symbols and functions;
  \<^item> \<open>JToJSON v\<close>, an object with a method \<^verbatim>\<open>toJSON\<close> that returns \<open>v\<close> and with no
    enumerable property of its own: a \<^verbatim>\<open>Date\<close> is one, with \<open>v\<close> its ISO string, or \<^verbatim>\<open>null\<close>
    when the date is invalid;
  \<^item> arrays, as the list of their elements (a hole is an element \<^verbatim>\<open>undefined\<close>), and plain
    objects, as the list of their enumerable properties in the order of enumeration;
  \<^item> \<open>JOther v\<close>, any other object without \<^verbatim>\<open>toJSON\<close>, which \<^verbatim>\<open>JSON.stringify\<close> writes as it
    writes \<open>v\<close>: a wrapper such as \<^verbatim>\<open>new Number(1)\<close> (\<open>v\<close> the primitive), an array with
    further properties (\<open>v\<close> the array of its elements), an instance of a class, a \<^verbatim>\<open>Map\<close>,
    a \<^verbatim>\<open>RegExp\<close> (\<open>v\<close> the plain object of its enumerable properties);
  \<^item> \<open>JCyclic\<close>, an array or object on a cycle: it contains itself, or the node that holds
    it.

  Payloads are treated as immutable values, and reading them has no effect: accessor
  properties and methods \<^verbatim>\<open>toJSON\<close> that throw or change something are left out.
\<close>

datatype jsval =
    JUndefined
  | JNull
  | JBool bool
  | JNum int
  | JNegZero
  | JNaN
  | JInfinity
  | JNegInfinity
  | JBigInt int
  | JStr string
  | JSymbol string
  | JFunction string
  | JToJSON jsval
  | JArr "jsval list"
  | JObj "(string \<times> jsval) list"
  | JOther jsval
  | JCyclic

type_synonym Data = jsval

text \<open>\<^verbatim>\<open>enum TaskState {waiting, done, fail}\<close> (\<^verbatim>\<open>done\<close> is a keyword of the prover,
  so the constructors are capitalised).\<close>

datatype TaskState = Waiting | Done | Fail

text \<open>
  Nodes are JavaScript objects: they are mutated in place and referred to by reference.
  The store is a list of objects, a reference is an index into it, and allocation appends.
  The tag \<^verbatim>\<open>type\<close> of the source (\<^verbatim>\<open>NodeType.data\<close>, \<^verbatim>\<open>NodeType.task\<close>) is the constructor.
  A data node may lack the property \<^verbatim>\<open>data\<close> (\<open>DataNode None\<close>): \<^verbatim>\<open>JSON.parse\<close> builds such a
  node from a document in which the property was omitted. Reading the property then gives
  \<^verbatim>\<open>undefined\<close>.
\<close>

type_synonym addr = nat

datatype node =
    DataNode "Data option"
  | TaskNode TaskState string string "addr list"

definition get_data :: "Data option \<Rightarrow> Data" where
  "get_data d = (case d of None \<Rightarrow> JUndefined | Some v \<Rightarrow> v)"

type_synonym heap = "node list"

definition deref :: "heap \<Rightarrow> addr \<Rightarrow> node option" where
  "deref h a = (if a < length h then Some (h ! a) else None)"

definition alloc :: "heap \<Rightarrow> node \<Rightarrow> addr \<times> heap" where
  "alloc h n = (length h, h @ [n])"

definition createTaskNode :: "string \<Rightarrow> string \<Rightarrow> node" where
  "createTaskNode template url = TaskNode Waiting template url []"

definition createDataNode :: "Data \<Rightarrow> node" where
  "createDataNode d = DataNode (Some d)"

text \<open>\<^verbatim>\<open>node.state = s\<close> and \<^verbatim>\<open>taskNode.children.push(c)\<close> on the object at an address.
  Both are only ever applied to task nodes (the parameters have type \<^verbatim>\<open>TaskNode\<close>).\<close>

definition set_state :: "heap \<Rightarrow> addr \<Rightarrow> TaskState \<Rightarrow> heap" where
  "set_state h a s =
     (case deref h a of
        Some (TaskNode s0 t u cs) \<Rightarrow> h[a := TaskNode s t u cs]
      | _ \<Rightarrow> h)"

definition push_child :: "heap \<Rightarrow> addr \<Rightarrow> addr \<Rightarrow> heap" where
  "push_child h p c =
     (case deref h p of
        Some (TaskNode s t u cs) \<Rightarrow> h[p := TaskNode s t u (cs @ [c])]
      | _ \<Rightarrow> h)"

text \<open>A tree as a value: what a snapshot is once it leaves the store (the argument of
  \<^verbatim>\<open>start(snapshot)\<close>, the document \<^verbatim>\<open>JSON.stringify\<close> writes).\<close>

datatype tree =
    DataT "Data option"
  | TaskT TaskState string string "tree list"

section \<open>The scheduler's state\<close>

text \<open>\<^verbatim>\<open>interface Options\<close>, every field optional; \<^verbatim>\<open>distinct\<close> is a constant of the
  library, hence the suffix.\<close>

record Options =
  thread :: "nat option"
  interval :: "nat option"
  distinct_opt :: "bool option"

record settings =
  s_thread :: nat
  s_interval :: nat
  s_distinct :: bool

definition defaultOpts :: settings where
  "defaultOpts = \<lparr>s_thread = 1, s_interval = 0, s_distinct = True\<rparr>"

text \<open>\<^verbatim>\<open>Object.assign({}, defaultOpts, opts)\<close>\<close>

definition assign_opts :: "settings \<Rightarrow> Options \<Rightarrow> settings" where
  "assign_opts d opts =
     \<lparr>s_thread = (case thread opts of None \<Rightarrow> s_thread d | Some n \<Rightarrow> n),
      s_interval = (case interval opts of None \<Rightarrow> s_interval d | Some n \<Rightarrow> n),
      s_distinct = (case distinct_opt opts of None \<Rightarrow> s_distinct d | Some b \<Rightarrow> b)\<rparr>"

text \<open>A call of the collector \<^verbatim>\<open>add\<close>, by the two overloads of \<^verbatim>\<open>interface AddFunc\<close>.\<close>

datatype call = AddData Data | AddTask string string

text \<open>
  A template function is user code: given the URL it calls \<^verbatim>\<open>add\<close> some number of times
  and its promise settles, resolved or rejected with a value. The embedding keeps exactly
  that: the calls made before settling, and the way it settled.
\<close>

datatype outcome = Resolved "call list" | Rejected "call list" jsval

type_synonym TemplateFunc = "string \<Rightarrow> outcome"

text \<open>Errors: the ones the source throws itself, and \<^verbatim>\<open>TypeError\<close> for reading a property
  of \<^verbatim>\<open>null\<close> or \<^verbatim>\<open>undefined\<close>. \<open>NotEnabled\<close> and \<open>IllTyped\<close> are not JavaScript errors:
  the first answers a scheduling step that cannot happen in the given state, the second an
  argument list that neither overload of \<^verbatim>\<open>start\<close> declares.\<close>

datatype error =
    TypeError
  | TemplateNotExist string
  | TemplateRegistered string
  | CannotStartAgain
  | Raised jsval
  | NotEnabled
  | IllTyped

datatype event = DataEv Data | FailEv error | DoneEv

text \<open>The closure \<^verbatim>\<open>task\<close> built by \<^verbatim>\<open>addTask(node, template, url)\<close>: its captured variables.\<close>

record task =
  task_node :: addr
  task_template :: string
  task_url :: string

text \<open>
  The fields of \<^verbatim>\<open>class Nekopara\<close>, and what the runtime holds for it:
  \<^item> \<open>heap\<close>: the object store;
  \<^item> \<open>taskQueue\<close>: the bodies submitted to the worker pool and not yet started;
  \<^item> \<open>inflight\<close>: the bodies that passed the stop check and the template lookup and are
    suspended (on the delay gate, then on the template's promise), with the template
    function they hold;
  \<^item> \<open>started\<close>: \<^verbatim>\<open>this.start\<close> has been replaced by the throwing closure and the
    \<^verbatim>\<open>'empty'\<close> listener is registered;
  \<^item> \<open>busy\<close>: the pool has received work since it last signalled \<^verbatim>\<open>'empty'\<close>;
  \<^item> \<open>timers\<close>: the pending \<^verbatim>\<open>setTimeout\<close> callbacks, each of which emits one event;
  \<^item> \<open>emitted\<close>: the events delivered to listeners so far, oldest first.
  The delay queue only spaces dispatches in time and is left out.
\<close>

record nekopara =
  options :: settings
  heap :: heap
  crawlTree :: "addr option"
  urlSet :: "string set"
  taskQueue :: "task list"
  inflight :: "(task \<times> TemplateFunc) list"
  templates :: "string \<rightharpoonup> TemplateFunc"
  stopped :: bool
  started :: bool
  busy :: bool
  timers :: "event list"
  emitted :: "event list"

text \<open>\<^verbatim>\<open>constructor(opts)\<close>\<close>

definition init :: "Options \<Rightarrow> nekopara" where
  "init opts =
     \<lparr>options = assign_opts defaultOpts opts,
      heap = [],
      crawlTree = None,
      urlSet = {},
      taskQueue = [],
      inflight = [],
      templates = Map.empty,
      stopped = False,
      started = False,
      busy = False,
      timers = [],
      emitted = []\<rparr>"

section \<open>Pre-order traversal\<close>

text \<open>
  \<^verbatim>\<open>preOrderTraversal(root, cb)\<close>. The callbacks of the source are closures that read and
  write the scheduler and their own local variables; a callback is a function on the pair
  of both. A node argument is \<open>None\<close> for \<^verbatim>\<open>null\<close> or \<^verbatim>\<open>undefined\<close>. The stack of the
  source grows at its end; here its top (\<open>tp\<close>) is the head of the list.
\<close>

record frame =
  cur :: int
  len :: nat
  node :: addr

type_synonym 'a callback = "addr option \<Rightarrow> nekopara \<times> 'a \<Rightarrow> error + nekopara \<times> 'a"

definition handle ::
  "'a callback \<Rightarrow> addr option \<Rightarrow> frame list \<Rightarrow> nekopara \<times> 'a \<Rightarrow>
     error + frame list \<times> (nekopara \<times> 'a)" where
  "handle cb nd stack s =
     (case cb nd s of
        Inl e \<Rightarrow> Inl e
      | Inr s' \<Rightarrow>
          (case nd of
             None \<Rightarrow> Inl TypeError
           | Some a \<Rightarrow>
               (case deref (heap (fst s')) a of
                  None \<Rightarrow> Inl TypeError
                | Some (DataNode d) \<Rightarrow> Inr (stack, s')
                | Some (TaskNode st t u cs) \<Rightarrow>
                    Inr (\<lparr>cur = - 1, len = length cs, node = a\<rparr> # stack, s'))))"

text \<open>\<^verbatim>\<open>top.node.children\<close> and \<^verbatim>\<open>children[i]\<close>\<close>

definition children_of :: "heap \<Rightarrow> addr \<Rightarrow> error + addr list" where
  "children_of h a =
     (case deref h a of
        Some (TaskNode s t u cs) \<Rightarrow> Inr cs
      | _ \<Rightarrow> Inl TypeError)"

definition index :: "addr list \<Rightarrow> int \<Rightarrow> addr option" where
  "index xs i = (if 0 \<le> i \<and> nat i < length xs then Some (xs ! nat i) else None)"

partial_function (option) traverse_loop ::
  "'a callback \<Rightarrow> frame list \<Rightarrow> nekopara \<times> 'a \<Rightarrow> (error + nekopara \<times> 'a) option" where
  "traverse_loop cb stack s =
     (case stack of
        [] \<Rightarrow> Some (Inr s)
      | tp # rest \<Rightarrow>
          if cur tp = int (len tp) - 1 then traverse_loop cb rest s
          else
            (case children_of (heap (fst s)) (node tp) of
               Inl e \<Rightarrow> Some (Inl e)
             | Inr children \<Rightarrow>
                 (case handle cb (index children (cur tp + 1))
                         (tp\<lparr>cur := cur tp + 1\<rparr> # rest) s of
                    Inl e \<Rightarrow> Some (Inl e)
                  | Inr (stack', s') \<Rightarrow> traverse_loop cb stack' s')))"

declare traverse_loop.simps [code]

definition preOrderTraversal ::
  "addr option \<Rightarrow> 'a callback \<Rightarrow> nekopara \<times> 'a \<Rightarrow> (error + nekopara \<times> 'a) option" where
  "preOrderTraversal root cb s =
     (case handle cb root [] s of
        Inl e \<Rightarrow> Some (Inl e)
      | Inr (stack, s') \<Rightarrow> traverse_loop cb stack s')"

section \<open>Collecting results\<close>

record results =
  list :: "Data list"
  complete :: bool

text \<open>The callback of \<^verbatim>\<open>getResults\<close>; its local variables are \<^verbatim>\<open>list\<close> and \<^verbatim>\<open>complete\<close>.\<close>

definition getResults_cb :: "results callback" where
  "getResults_cb nd s =
     (case nd of
        None \<Rightarrow> Inl TypeError
      | Some a \<Rightarrow>
          (case deref (heap (fst s)) a of
             None \<Rightarrow> Inl TypeError
           | Some (TaskNode st t u cs) \<Rightarrow>
               Inr (fst s, if st \<noteq> Done then (snd s)\<lparr>complete := False\<rparr> else snd s)
           | Some (DataNode d) \<Rightarrow> Inr (fst s, (snd s)\<lparr>list := list (snd s) @ [get_data d]\<rparr>)))"

definition getResults :: "nekopara \<Rightarrow> (error + results) option" where
  "getResults st =
     (case preOrderTraversal (crawlTree st) getResults_cb (st, \<lparr>list = [], complete = True\<rparr>) of
        None \<Rightarrow> None
      | Some (Inl e) \<Rightarrow> Some (Inl e)
      | Some (Inr s) \<Rightarrow> Some (Inr (snd s)))"

section \<open>Snapshots: the JSON round trip\<close>

text \<open>
  \<^verbatim>\<open>JSON.stringify\<close> on a payload, and what \<^verbatim>\<open>JSON.parse\<close> reads back. The outcome for a
  value is one of three: a \<^verbatim>\<open>TypeError\<close> (a BigInt, a circular structure); nothing written
  (\<^verbatim>\<open>undefined\<close>, a symbol, a function); or a text, kept here as the value it parses to,
  which is a JSON value.
  A number that is not finite is written \<^verbatim>\<open>null\<close>, and \<^verbatim>\<open>-0\<close> is written \<^verbatim>\<open>0\<close>. For an
  object with a method \<^verbatim>\<open>toJSON\<close> the value the method returns is written in its place; the
  method is not looked up again on that value, so that an object with \<^verbatim>\<open>toJSON\<close> returned
  by \<^verbatim>\<open>toJSON\<close> is written as the object it is, \<^verbatim>\<open>{}\<close>. In an array an element for
  which nothing is written becomes \<^verbatim>\<open>null\<close>; in an object such a property is omitted.
\<close>

datatype written = Throws | Omitted | Written jsval

definition element :: "written \<Rightarrow> jsval" where
  "element w = (case w of Written v \<Rightarrow> v | _ \<Rightarrow> JNull)"

definition member :: "string \<times> written \<Rightarrow> (string \<times> jsval) option" where
  "member kw = (case snd kw of Written v \<Rightarrow> Some (fst kw, v) | _ \<Rightarrow> None)"

primrec jsonify :: "jsval \<Rightarrow> written" where
  "jsonify JUndefined = Omitted"
| "jsonify JNull = Written JNull"
| "jsonify (JBool b) = Written (JBool b)"
| "jsonify (JNum n) = Written (JNum n)"
| "jsonify JNegZero = Written (JNum 0)"
| "jsonify JNaN = Written JNull"
| "jsonify JInfinity = Written JNull"
| "jsonify JNegInfinity = Written JNull"
| "jsonify (JBigInt n) = Throws"
| "jsonify (JStr s) = Written (JStr s)"
| "jsonify (JSymbol s) = Omitted"
| "jsonify (JFunction f) = Omitted"
| "jsonify (JToJSON v) = (case v of JToJSON w \<Rightarrow> Written (JObj []) | _ \<Rightarrow> jsonify v)"
| "jsonify (JArr vs) =
     (if Throws \<in> set (map jsonify vs) then Throws
      else Written (JArr (map element (map jsonify vs))))"
| "jsonify (JObj kvs) =
     (if Throws \<in> snd ` set (map (map_prod id jsonify) kvs) then Throws
      else Written (JObj (List.map_filter member (map (map_prod id jsonify) kvs))))"
| "jsonify (JOther v) = jsonify v"
| "jsonify JCyclic = Throws"

text \<open>
  \<^verbatim>\<open>JSON.parse(JSON.stringify(t))\<close> of a tree value: the document, itself a tree, or
  \<open>None\<close> for the \<^verbatim>\<open>TypeError\<close> of a payload that cannot be written. The properties of a
  task node are a number, two strings and an array, and are written as they are. The
  property \<^verbatim>\<open>data\<close> is omitted when nothing is written for the payload.
\<close>

fun json_tree :: "tree \<Rightarrow> tree option" where
  "json_tree (DataT d) =
     (case d of
        None \<Rightarrow> Some (DataT None)
      | Some v \<Rightarrow>
          (case jsonify v of
             Throws \<Rightarrow> None
           | Omitted \<Rightarrow> Some (DataT None)
           | Written w \<Rightarrow> Some (DataT (Some w))))"
| "json_tree (TaskT s t u ts) = map_option (TaskT s t u) (those (map json_tree ts))"

text \<open>
  Reading the object graph below an address, as \<^verbatim>\<open>JSON.stringify\<close> walks it: \<open>anc\<close> are
  the objects being written (the ancestors); meeting one of them again is a circular
  structure, which \<^verbatim>\<open>JSON.stringify\<close> refuses with a \<^verbatim>\<open>TypeError\<close> (\<open>None\<close> here).
\<close>

function tree_at :: "heap \<Rightarrow> addr list \<Rightarrow> addr \<Rightarrow> tree option" where
  "tree_at h anc a =
     (if a \<in> set anc then None
      else
        (case deref h a of
           None \<Rightarrow> None
         | Some (DataNode d) \<Rightarrow> Some (DataT d)
         | Some (TaskNode s t u cs) \<Rightarrow>
             map_option (TaskT s t u) (those (map (tree_at h (a # anc)) cs))))"
  by pat_completeness auto
termination
proof (relation "measure (\<lambda>(h, anc, a). card ({..<length h} - set anc))")
  show "wf (measure (\<lambda>(h, anc, a). card ({..<length h} - set anc)))"
    by simp
next
  fix h :: heap and anc :: "addr list" and a :: addr and x2 x22 x23 x24 and x25 :: "addr list" and z
  assume a: "a \<notin> set anc" and d: "deref h a = Some x2"
  from d have lt: "a < length h"
    by (simp add: deref_def split: if_splits)
  have "{..<length h} - set (a # anc) \<subset> {..<length h} - set anc"
    using a lt by auto
  then have "card ({..<length h} - set (a # anc)) < card ({..<length h} - set anc)"
    by (intro psubset_card_mono) simp_all
  then show "((h, a # anc, z), h, anc, a) \<in> measure (\<lambda>(h, anc, a). card ({..<length h} - set anc))"
    by simp
qed

declare tree_at.simps [simp del]

text \<open>\<^verbatim>\<open>JSON.stringify\<close> followed by \<^verbatim>\<open>JSON.parse\<close> of the text, on the object at an address:
  the document, before \<open>parse\<close> builds its objects.\<close>

definition stringify :: "heap \<Rightarrow> addr \<Rightarrow> error + tree" where
  "stringify h a =
     (case tree_at h [] a of
        None \<Rightarrow> Inl TypeError
      | Some t \<Rightarrow> (case json_tree t of None \<Rightarrow> Inl TypeError | Some doc \<Rightarrow> Inr doc))"

text \<open>
  \<^verbatim>\<open>JSON.parse\<close> builds a fresh object for every node of the document. The new objects
  are appended to the store in pre-order: a node, then the objects of its first child,
  then those of its second child, and so on. \<open>objects b t\<close> are the objects of \<open>t\<close> when
  the first of them gets the address \<open>b\<close>.
\<close>

fun count :: "tree \<Rightarrow> nat" where
  "count (DataT d) = 1"
| "count (TaskT s t u ts) = Suc (sum_list (map count ts))"

fun child_addrs :: "addr \<Rightarrow> tree list \<Rightarrow> addr list" where
  "child_addrs b [] = []"
| "child_addrs b (t # ts) = b # child_addrs (b + count t) ts"

fun objects :: "addr \<Rightarrow> tree \<Rightarrow> node list"
  and objects_list :: "addr \<Rightarrow> tree list \<Rightarrow> node list" where
  "objects b (DataT d) = [DataNode d]"
| "objects b (TaskT s t u ts) = TaskNode s t u (child_addrs (Suc b) ts) # objects_list (Suc b) ts"
| "objects_list b [] = []"
| "objects_list b (t # ts) = objects b t @ objects_list (b + count t) ts"

definition parse :: "tree \<Rightarrow> heap \<Rightarrow> addr \<times> heap" where
  "parse doc h = (length h, h @ objects (length h) doc)"

text \<open>\<^verbatim>\<open>snapshot()\<close>: \<^verbatim>\<open>JSON.parse(JSON.stringify(this.crawlTree))\<close>; the result is the
  reference returned and the store with the copy.\<close>

definition snapshot :: "nekopara \<Rightarrow> error + addr option \<times> nekopara" where
  "snapshot st =
     (case crawlTree st of
        None \<Rightarrow> Inr (None, st)
      | Some r \<Rightarrow>
          (case stringify (heap st) r of
             Inl e \<Rightarrow> Inl e
           | Inr doc \<Rightarrow>
               (case parse doc (heap st) of
                  (a, h) \<Rightarrow> Inr (Some a, st\<lparr>heap := h\<rparr>))))"

section \<open>Dispatch and commit\<close>

text \<open>\<^verbatim>\<open>addTask\<close> builds the closure and submits it: \<^verbatim>\<open>this.taskQueue.add(task)\<close>.\<close>

definition addTask :: "addr \<Rightarrow> string \<Rightarrow> string \<Rightarrow> nekopara \<Rightarrow> nekopara" where
  "addTask nd template url st =
     st\<lparr>taskQueue := taskQueue st @ [\<lparr>task_node = nd, task_template = template, task_url = url\<rparr>],
        busy := True\<rparr>"

text \<open>
  \<^verbatim>\<open>createAddFunc(taskNode)\<close> returns \<^verbatim>\<open>add\<close>, which only appends its arguments to
  \<^verbatim>\<open>executeQueue\<close>, and \<^verbatim>\<open>exec\<close>, which replays the queue. \<open>exec taskNode q\<close> is \<^verbatim>\<open>exec()\<close>
  when \<^verbatim>\<open>executeQueue\<close> holds the calls \<open>q\<close>; \<open>taskNode\<close> is \<open>None\<close> for \<^verbatim>\<open>null\<close>.
  Pushing a data node onto \<^verbatim>\<open>null\<close> is a \<^verbatim>\<open>TypeError\<close>.
\<close>

fun exec :: "addr option \<Rightarrow> call list \<Rightarrow> nekopara \<Rightarrow> error + nekopara" where
  "exec taskNode [] st = Inr st"
| "exec taskNode (AddData d # q) st =
     (case taskNode of
        None \<Rightarrow> Inl TypeError
      | Some p \<Rightarrow>
          (case alloc (heap st) (createDataNode d) of
             (a, h) \<Rightarrow>
               exec taskNode q
                 (st\<lparr>heap := push_child h p a, timers := timers st @ [DataEv d]\<rparr>)))"
| "exec taskNode (AddTask template url # q) st =
     (if s_distinct (options st) \<and> url \<in> urlSet st then exec taskNode q st
      else
        (case alloc (heap st) (createTaskNode template url) of
           (a, h) \<Rightarrow>
             exec taskNode q
               (addTask a template url
                  (case taskNode of
                     None \<Rightarrow> st\<lparr>urlSet := insert url (urlSet st), heap := h, crawlTree := Some a\<rparr>
                   | Some p \<Rightarrow> st\<lparr>urlSet := insert url (urlSet st), heap := push_child h p a\<rparr>))))"

text \<open>The \<^verbatim>\<open>catch\<close> block of the task body.\<close>

definition catch_fail :: "task \<Rightarrow> error \<Rightarrow> nekopara \<Rightarrow> nekopara" where
  "catch_fail tk err st =
     st\<lparr>heap := set_state (heap st) (task_node tk) Fail, emitted := emitted st @ [FailEv err]\<rparr>"

text \<open>
  The task body runs in two turns. \<open>task_begin\<close> is the body up to
  \<^verbatim>\<open>await this.createDelayPromise()\<close>: the stop check and the template lookup; a body that
  goes on is suspended with the template function it found. \<open>task_settle\<close> is the rest,
  run when the template's promise has settled with the given outcome: \<^verbatim>\<open>exec()\<close> and
  \<^verbatim>\<open>node.state = TaskState.done\<close>, or the \<^verbatim>\<open>catch\<close> block.
\<close>

definition task_begin :: "task \<Rightarrow> nekopara \<Rightarrow> nekopara" where
  "task_begin tk st =
     (if stopped st then st
      else
        (case templates st (task_template tk) of
           None \<Rightarrow> catch_fail tk (TemplateNotExist (task_template tk)) st
         | Some templateFunc \<Rightarrow> st\<lparr>inflight := inflight st @ [(tk, templateFunc)]\<rparr>))"

definition task_settle :: "task \<Rightarrow> outcome \<Rightarrow> nekopara \<Rightarrow> nekopara" where
  "task_settle tk out st =
     (case out of
        Resolved q \<Rightarrow>
          (case exec (Some (task_node tk)) q st of
             Inr st' \<Rightarrow> st'\<lparr>heap := set_state (heap st') (task_node tk) Done\<rparr>
           | Inl e \<Rightarrow> catch_fail tk e st)
      | Rejected q err \<Rightarrow> catch_fail tk (Raised err) st)"

section \<open>Public operations\<close>

definition register :: "string \<Rightarrow> TemplateFunc \<Rightarrow> nekopara \<Rightarrow> error + nekopara" where
  "register template func st =
     (if templates st template \<noteq> None then Inl (TemplateRegistered template)
      else Inr (st\<lparr>templates := (templates st)(template \<mapsto> func)\<rparr>))"

definition stop :: "nekopara \<Rightarrow> nekopara" where
  "stop st = st\<lparr>stopped := True\<rparr>"

definition onDone :: "nekopara \<Rightarrow> nekopara" where
  "onDone st = (if stopped st then st else st\<lparr>timers := timers st @ [DoneEv]\<rparr>)"

definition startWithEntry :: "string \<Rightarrow> string \<Rightarrow> nekopara \<Rightarrow> error + nekopara" where
  "startWithEntry template url st = exec None [AddTask template url] st"

text \<open>The callback of \<^verbatim>\<open>startWithSnapshot\<close>; its local variable is \<^verbatim>\<open>completely\<close>.\<close>

definition startWithSnapshot_cb :: "bool callback" where
  "startWithSnapshot_cb nd s =
     (case nd of
        None \<Rightarrow> Inl TypeError
      | Some a \<Rightarrow>
          (case deref (heap (fst s)) a of
             None \<Rightarrow> Inl TypeError
           | Some (DataNode d) \<Rightarrow> Inr s
           | Some (TaskNode state t u cs) \<Rightarrow>
               (if state \<noteq> Done
                then Inr (addTask a t u
                            ((fst s)\<lparr>urlSet := insert u (urlSet (fst s)),
                                     heap := set_state (heap (fst s)) a Waiting\<rparr>), False)
                else Inr ((fst s)\<lparr>urlSet := insert u (urlSet (fst s))\<rparr>, snd s))))"

text \<open>The argument \<open>snap\<close> is the snapshot as a value;
  \<^verbatim>\<open>JSON.parse(JSON.stringify(snapshot))\<close> writes its document and builds fresh objects
  from it, or throws before anything is assigned.\<close>

definition startWithSnapshot :: "tree \<Rightarrow> nekopara \<Rightarrow> (error + nekopara) option" where
  "startWithSnapshot snap st =
     (case json_tree snap of
        None \<Rightarrow> Some (Inl TypeError)
      | Some doc \<Rightarrow>
          (case parse doc (heap st) of
             (root, h) \<Rightarrow>
               (case preOrderTraversal (Some root) startWithSnapshot_cb
                       (st\<lparr>heap := h, crawlTree := Some root\<rparr>, True) of
                  None \<Rightarrow> None
                | Some (Inl e) \<Rightarrow> Some (Inl e)
                | Some (Inr s) \<Rightarrow> Some (Inr (if snd s then onDone (fst s) else fst s)))))"

text \<open>The arguments of \<^verbatim>\<open>start(...args)\<close>: a snapshot or a string.\<close>

datatype arg = ArgNode tree | ArgStr string

definition and_then ::
  "(error + 'a) option \<Rightarrow> ('a \<Rightarrow> (error + 'b) option) \<Rightarrow> (error + 'b) option" where
  "and_then r f = (case r of None \<Rightarrow> None | Some (Inl e) \<Rightarrow> Some (Inl e) | Some (Inr x) \<Rightarrow> f x)"

text \<open>
  \<^verbatim>\<open>start\<close>: the two \<^verbatim>\<open>if\<close>s on \<^verbatim>\<open>args.length\<close>, then the \<^verbatim>\<open>'empty'\<close> listener and the
  replacement of \<^verbatim>\<open>this.start\<close>, both recorded by \<open>started\<close>.
\<close>

definition start :: "arg list \<Rightarrow> nekopara \<Rightarrow> (error + nekopara) option" where
  "start args st =
     (if started st then Some (Inl CannotStartAgain)
      else
        and_then
          (if length args = 1 then
             (case args ! 0 of
                ArgNode snap \<Rightarrow> startWithSnapshot snap st
              | ArgStr s \<Rightarrow> Some (Inl IllTyped))
           else Some (Inr st))
          (\<lambda>st1.
             and_then
               (if length args = 2 then
                  (case (args ! 0, args ! 1) of
                     (ArgStr template, ArgStr url) \<Rightarrow> Some (startWithEntry template url st1)
                   | _ \<Rightarrow> Some (Inl IllTyped))
                else Some (Inr st1))
               (\<lambda>st2. Some (Inr (st2\<lparr>started := True\<rparr>)))))"

section \<open>Runs\<close>

text \<open>
  What can happen to an instance, one turn of the event loop at a time: the calls of its
  public operations, and the steps of the runtime.
\<close>

text \<open>
  Modelled from the spec: the worker pool (package \<^verbatim>\<open>qnext\<close>) and the timers are not part
  of the source. The pool runs each submitted body later, in a turn of its own
  (\<open>Run i\<close> starts the \<open>i\<close>-th waiting body; \<open>Settle i\<close> resumes the \<open>i\<close>-th suspended one
  when its template has settled), and raises \<^verbatim>\<open>'empty'\<close> when it has no queued and no
  in-flight body after having had work. Neither the bound on concurrent bodies nor the
  order in which the pool picks them is imposed, so every choice of the pool is covered.
  \<open>Tick\<close> fires the oldest pending timer.
\<close>

datatype action =
    Register string TemplateFunc
  | Start "arg list"
  | Stop
  | Snapshot
  | Run nat
  | Settle nat
  | PoolEmpty
  | Tick

definition remove_nth :: "nat \<Rightarrow> 'a list \<Rightarrow> 'a list" where
  "remove_nth i xs = take i xs @ drop (Suc i) xs"

definition perform :: "action \<Rightarrow> nekopara \<Rightarrow> (error + nekopara) option" where
  "perform act st =
     (case act of
        Register template func \<Rightarrow> Some (register template func st)
      | Start args \<Rightarrow> start args st
      | Stop \<Rightarrow> Some (Inr (stop st))
      | Snapshot \<Rightarrow> Some (map_sum id snd (snapshot st))
      | Run i \<Rightarrow>
          (if i < length (taskQueue st)
           then Some (Inr (task_begin (taskQueue st ! i)
                             (st\<lparr>taskQueue := remove_nth i (taskQueue st)\<rparr>)))
           else Some (Inl NotEnabled))
      | Settle i \<Rightarrow>
          (if i < length (inflight st)
           then
             (case inflight st ! i of
                (tk, templateFunc) \<Rightarrow>
                  Some (Inr (task_settle tk (templateFunc (task_url tk))
                               (st\<lparr>inflight := remove_nth i (inflight st)\<rparr>))))
           else Some (Inl NotEnabled))
      | PoolEmpty \<Rightarrow>
          (if busy st \<and> taskQueue st = [] \<and> inflight st = []
           then Some (Inr (if started st then onDone (st\<lparr>busy := False\<rparr>) else st\<lparr>busy := False\<rparr>))
           else Some (Inl NotEnabled))
      | Tick \<Rightarrow>
          (case timers st of
             [] \<Rightarrow> Some (Inl NotEnabled)
           | ev # rest \<Rightarrow> Some (Inr (st\<lparr>timers := rest, emitted := emitted st @ [ev]\<rparr>))))"

text \<open>A run: a call that throws, or a step that is not enabled, leaves the instance as
  it was.\<close>

fun run :: "action list \<Rightarrow> nekopara \<Rightarrow> nekopara option" where
  "run [] st = Some st"
| "run (act # acts) st =
     (case perform act st of
        None \<Rightarrow> None
      | Some (Inl e) \<Rightarrow> run acts st
      | Some (Inr st') \<Rightarrow> run acts st')"

section \<open>Trees in the store\<close>

text \<open>
  The notions the statements below are written in. An address tree records which objects
  make up a tree and how they are nested; \<open>shape h T\<close> says that the store \<open>h\<close> holds
  objects nested as \<open>T\<close> says, \<open>preorder T\<close> lists the addresses of \<open>T\<close> depth first, a
  node before its children and the children from left to right, and \<open>val h T\<close> is the
  tree as a value.
\<close>

datatype atree = ANode addr "atree list"

fun root :: "atree \<Rightarrow> addr" where
  "root (ANode a Ts) = a"

fun preorder :: "atree \<Rightarrow> addr list" where
  "preorder (ANode a Ts) = a # concat (map preorder Ts)"

fun shape :: "heap \<Rightarrow> atree \<Rightarrow> bool" where
  "shape h (ANode a Ts) =
     (case deref h a of
        None \<Rightarrow> False
      | Some (DataNode d) \<Rightarrow> Ts = []
      | Some (TaskNode s t u cs) \<Rightarrow> cs = map root Ts \<and> list_all (shape h) Ts)"

fun val :: "heap \<Rightarrow> atree \<Rightarrow> tree" where
  "val h (ANode a Ts) =
     (case deref h a of
        Some (TaskNode s t u cs) \<Rightarrow> TaskT s t u (map (val h) Ts)
      | Some (DataNode d) \<Rightarrow> DataT d
      | None \<Rightarrow> DataT None)"

text \<open>What a callback of the traversal may change: anything but the kind of an object
  and the children of a task node.\<close>

fun skeleton :: "node \<Rightarrow> addr list option" where
  "skeleton (DataNode d) = None"
| "skeleton (TaskNode s t u cs) = Some cs"

definition same_shape :: "heap \<Rightarrow> heap \<Rightarrow> bool" where
  "same_shape h h' \<longleftrightarrow> map skeleton h = map skeleton h'"

definition preserving :: "'a callback \<Rightarrow> bool" where
  "preserving cb \<longleftrightarrow> (\<forall>nd s s'. cb nd s = Inr s' \<longrightarrow> same_shape (heap (fst s)) (heap (fst s')))"

text \<open>Calling the callback on a list of nodes, one after the other, up to its first
  error.\<close>

fun visit :: "'a callback \<Rightarrow> addr list \<Rightarrow> nekopara \<times> 'a \<Rightarrow> error + nekopara \<times> 'a" where
  "visit cb [] s = Inr s"
| "visit cb (a # as) s = (case cb (Some a) s of Inl e \<Rightarrow> Inl e | Inr s' \<Rightarrow> visit cb as s')"

definition continue :: "error + 'b \<Rightarrow> ('b \<Rightarrow> (error + 'c) option) \<Rightarrow> (error + 'c) option" where
  "continue r k = (case r of Inl e \<Rightarrow> Some (Inl e) | Inr x \<Rightarrow> k x)"

text \<open>What \<^verbatim>\<open>getResults\<close> is to return, on the tree as a value: the payloads of the data
  nodes, depth first and left to right, and whether every task node is done. \<open>payload_at\<close>
  and \<open>done_at\<close> say the same of one object of the store.\<close>

fun data_of :: "tree \<Rightarrow> Data list" where
  "data_of (DataT d) = [get_data d]"
| "data_of (TaskT s t u ts) = concat (map data_of ts)"

fun all_done :: "tree \<Rightarrow> bool" where
  "all_done (DataT d) = True"
| "all_done (TaskT s t u ts) = (s = Done \<and> list_all all_done ts)"

definition payload_at :: "heap \<Rightarrow> addr \<Rightarrow> Data list" where
  "payload_at h a = (case deref h a of Some (DataNode d) \<Rightarrow> [get_data d] | _ \<Rightarrow> [])"

definition done_at :: "heap \<Rightarrow> addr \<Rightarrow> bool" where
  "done_at h a = (case deref h a of Some (TaskNode s t u cs) \<Rightarrow> s = Done | _ \<Rightarrow> True)"

text \<open>
  Resuming, on the tree as a value. \<open>addr_tree b t\<close> is the address tree of the objects
  that \<open>parse\<close> builds for \<open>t\<close> from address \<open>b\<close> on. \<open>reset_states\<close> sets every state
  that is not \<open>Done\<close> to \<open>Waiting\<close> and leaves the rest; \<open>redispatch b t\<close> are the tasks
  of the nodes of \<open>t\<close> that are not \<open>Done\<close>, in pre-order, each with the address its node
  has in the store; \<open>task_urls\<close> are the URLs of the task nodes. \<open>reset\<close>, \<open>tasks_of\<close> and
  \<open>urls_of\<close> say the same of a list of objects.
\<close>

fun addr_tree :: "addr \<Rightarrow> tree \<Rightarrow> atree"
  and addr_trees :: "addr \<Rightarrow> tree list \<Rightarrow> atree list" where
  "addr_tree b (DataT d) = ANode b []"
| "addr_tree b (TaskT s t u ts) = ANode b (addr_trees (Suc b) ts)"
| "addr_trees b [] = []"
| "addr_trees b (t # ts) = addr_tree b t # addr_trees (b + count t) ts"

fun reset_states :: "tree \<Rightarrow> tree" where
  "reset_states (DataT d) = DataT d"
| "reset_states (TaskT s t u ts) = TaskT (if s \<noteq> Done then Waiting else s) t u (map reset_states ts)"

fun redispatch :: "addr \<Rightarrow> tree \<Rightarrow> task list"
  and redispatch_list :: "addr \<Rightarrow> tree list \<Rightarrow> task list" where
  "redispatch b (DataT d) = []"
| "redispatch b (TaskT s t u ts) =
     (if s \<noteq> Done then [\<lparr>task_node = b, task_template = t, task_url = u\<rparr>] else [])
     @ redispatch_list (Suc b) ts"
| "redispatch_list b [] = []"
| "redispatch_list b (t # ts) = redispatch b t @ redispatch_list (b + count t) ts"

fun task_urls :: "tree \<Rightarrow> string list" where
  "task_urls (DataT d) = []"
| "task_urls (TaskT s t u ts) = u # concat (map task_urls ts)"

fun reset :: "node \<Rightarrow> node" where
  "reset (DataNode d) = DataNode d"
| "reset (TaskNode s t u cs) = TaskNode (if s \<noteq> Done then Waiting else s) t u cs"

fun tasks_of :: "addr \<Rightarrow> node list \<Rightarrow> task list" where
  "tasks_of k [] = []"
| "tasks_of k (DataNode d # os) = tasks_of (Suc k) os"
| "tasks_of k (TaskNode s t u cs # os) =
     (if s \<noteq> Done then [\<lparr>task_node = k, task_template = t, task_url = u\<rparr>] else [])
     @ tasks_of (Suc k) os"

fun urls_of :: "node list \<Rightarrow> string list" where
  "urls_of [] = []"
| "urls_of (DataNode d # os) = urls_of os"
| "urls_of (TaskNode s t u cs # os) = u # urls_of os"

text \<open>A tree without its payloads: what is left of a tree in its document whatever the
  payloads are.\<close>

fun outline :: "tree \<Rightarrow> tree" where
  "outline (DataT d) = DataT None"
| "outline (TaskT s t u ts) = TaskT s t u (map outline ts)"

text \<open>The JSON values: \<^verbatim>\<open>null\<close>, the booleans, the finite numbers other than \<^verbatim>\<open>-0\<close>, the
  strings, and the arrays and objects of JSON values. A tree is plain when every payload
  it has is a JSON value.\<close>

fun plain :: "jsval \<Rightarrow> bool" where
  "plain JNull = True"
| "plain (JBool b) = True"
| "plain (JNum n) = True"
| "plain (JStr s) = True"
| "plain (JArr vs) = list_all plain vs"
| "plain (JObj kvs) = list_all (\<lambda>kv. plain (snd kv)) kvs"
| "plain v = False"

fun plain_tree :: "tree \<Rightarrow> bool" where
  "plain_tree (DataT d) = (case d of None \<Rightarrow> True | Some v \<Rightarrow> plain v)"
| "plain_tree (TaskT s t u ts) = list_all plain_tree ts"

text \<open>
  The commit, on lists of objects: \<open>produced dis seen q\<close> are the nodes that replaying
  the calls \<open>q\<close> creates, in call order, when \<open>seen\<close> are the URLs recorded so far and
  \<open>dis\<close> is the \<^verbatim>\<open>distinct\<close> option; \<open>data_events q\<close> are the \<^verbatim>\<open>data\<close> events it schedules.
\<close>

fun produced :: "bool \<Rightarrow> string set \<Rightarrow> call list \<Rightarrow> node list" where
  "produced dis seen [] = []"
| "produced dis seen (AddData d # q) = DataNode (Some d) # produced dis seen q"
| "produced dis seen (AddTask t u # q) =
     (if dis \<and> u \<in> seen then produced dis seen q
      else TaskNode Waiting t u [] # produced dis (insert u seen) q)"

fun data_events :: "call list \<Rightarrow> event list" where
  "data_events [] = []"
| "data_events (AddData d # q) = DataEv d # data_events q"
| "data_events (AddTask t u # q) = data_events q"

text \<open>
  The invariant of the children. \<open>node_ok\<close>: a task node that is not done has no
  children. \<open>pending\<close> are the nodes of the bodies the pool holds, queued or suspended;
  each of them is waiting with no children (\<open>waiting_at\<close>), and no node has two bodies.
  \<open>frozen h h'\<close>: every done node of \<open>h\<close> is the same in \<open>h'\<close>. A snapshot passed to
  \<^verbatim>\<open>start\<close> is expected to be one that \<^verbatim>\<open>snapshot()\<close> returned (\<open>children_ok\<close>: its
  nodes that are not done have no children).
\<close>

fun node_ok :: "node \<Rightarrow> bool" where
  "node_ok (DataNode d) = True"
| "node_ok (TaskNode s t u cs) = (s = Done \<or> cs = [])"

fun fresh_ok :: "node \<Rightarrow> bool" where
  "fresh_ok (DataNode d) = True"
| "fresh_ok (TaskNode s t u cs) = (s = Done \<or> (s = Waiting \<and> cs = []))"

definition waiting_at :: "heap \<Rightarrow> addr \<Rightarrow> bool" where
  "waiting_at h a = (\<exists>t u. deref h a = Some (TaskNode Waiting t u []))"

definition pending :: "nekopara \<Rightarrow> addr list" where
  "pending st = map task_node (taskQueue st) @ map (\<lambda>x. task_node (fst x)) (inflight st)"

definition ok :: "heap \<Rightarrow> addr list \<Rightarrow> bool" where
  "ok h P \<longleftrightarrow> list_all node_ok h \<and> distinct P \<and> list_all (waiting_at h) P"

definition inv1 :: "nekopara \<Rightarrow> bool" where
  "inv1 st \<longleftrightarrow> ok (heap st) (pending st)"

definition frozen :: "heap \<Rightarrow> heap \<Rightarrow> bool" where
  "frozen h h' \<longleftrightarrow>
     (\<forall>a t u cs. deref h a = Some (TaskNode Done t u cs) \<longrightarrow> deref h' a = Some (TaskNode Done t u cs))"

fun children_ok :: "tree \<Rightarrow> bool" where
  "children_ok (DataT d) = True"
| "children_ok (TaskT s t u ts) = ((s = Done \<or> ts = []) \<and> list_all children_ok ts)"

fun arg_ok :: "arg \<Rightarrow> bool" where
  "arg_ok (ArgNode t) = children_ok t"
| "arg_ok (ArgStr s) = True"

fun ok_action :: "action \<Rightarrow> bool" where
  "ok_action (Start args) = list_all arg_ok args"
| "ok_action act = True"

text \<open>
  The invariant of the URLs. \<open>tree_nodes h r\<close> are the objects of the tree below \<open>r\<close>,
  \<open>nodes_of\<close> those of the crawl tree; \<open>url_at\<close> is the URL of a task node. \<open>closed\<close>:
  no reference leaves the store. \<open>grows h h'\<close>: a step from \<open>h\<close> to \<open>h'\<close> keeps the kind
  and URL of every object, and the only references it adds point to objects it has added.
  \<open>urls_unique\<close> and \<open>urls_recorded\<close> are the two halves of the dedup invariant. A
  snapshot passed to \<^verbatim>\<open>start\<close> is asked not to repeat a URL (\<open>urls_ok_action\<close>).
\<close>

fun kids :: "node \<Rightarrow> addr list" where
  "kids (DataNode d) = []"
| "kids (TaskNode s t u cs) = cs"

fun node_url :: "node \<Rightarrow> string option" where
  "node_url (DataNode d) = None"
| "node_url (TaskNode s t u cs) = Some u"

inductive_set tree_nodes :: "heap \<Rightarrow> addr \<Rightarrow> addr set" for h :: heap and r :: addr where
  root_node: "r \<in> tree_nodes h r"
| child_node: "p \<in> tree_nodes h r \<Longrightarrow> p < length h \<Longrightarrow> c \<in> set (kids (h ! p)) \<Longrightarrow>
     c \<in> tree_nodes h r"

definition nodes_of :: "nekopara \<Rightarrow> addr set" where
  "nodes_of st = (case crawlTree st of None \<Rightarrow> {} | Some r \<Rightarrow> tree_nodes (heap st) r)"

definition url_at :: "heap \<Rightarrow> addr \<Rightarrow> string option" where
  "url_at h a = (if a < length h then node_url (h ! a) else None)"

definition closed :: "heap \<Rightarrow> bool" where
  "closed h \<longleftrightarrow> (\<forall>n \<in> set h. \<forall>c \<in> set (kids n). c < length h)"

definition grows :: "heap \<Rightarrow> heap \<Rightarrow> bool" where
  "grows h h' \<longleftrightarrow> length h \<le> length h' \<and>
     (\<forall>a < length h. node_url (h' ! a) = node_url (h ! a) \<and>
        (\<forall>c \<in> set (kids (h' ! a)). c \<in> set (kids (h ! a)) \<or> length h \<le> c)) \<and>
     (\<forall>a. length h \<le> a \<and> a < length h' \<longrightarrow> (\<forall>c \<in> set (kids (h' ! a)). length h \<le> c))"

definition urls_unique :: "nekopara \<Rightarrow> bool" where
  "urls_unique st \<longleftrightarrow>
     (\<forall>a b u. a \<in> nodes_of st \<and> b \<in> nodes_of st \<and>
        url_at (heap st) a = Some u \<and> url_at (heap st) b = Some u \<longrightarrow> a = b)"

definition urls_recorded :: "nekopara \<Rightarrow> bool" where
  "urls_recorded st \<longleftrightarrow>
     (\<forall>a u. a \<in> nodes_of st \<and> url_at (heap st) a = Some u \<longrightarrow> u \<in> urlSet st)"

definition task_at :: "heap \<Rightarrow> addr \<Rightarrow> bool" where
  "task_at h a = (\<exists>s t u cs. deref h a = Some (TaskNode s t u cs))"

definition inv2 :: "nekopara \<Rightarrow> bool" where
  "inv2 st \<longleftrightarrow> closed (heap st) \<and> (\<forall>r. crawlTree st = Some r \<longrightarrow> r < length (heap st)) \<and>
     (\<forall>a \<in> set (pending st). task_at (heap st) a) \<and> urls_unique st \<and> urls_recorded st"

fun arg_urls_ok :: "arg \<Rightarrow> bool" where
  "arg_urls_ok (ArgNode t) = distinct (task_urls t)"
| "arg_urls_ok (ArgStr s) = True"

fun urls_ok_action :: "action \<Rightarrow> bool" where
  "urls_ok_action (Start args) = list_all arg_urls_ok args"
| "urls_ok_action act = True"

definition nodes :: "heap \<Rightarrow> addr option \<Rightarrow> addr set" where
  "nodes h ropt = (case ropt of None \<Rightarrow> {} | Some r \<Rightarrow> tree_nodes h r)"

definition uinv :: "heap \<Rightarrow> addr option \<Rightarrow> string set \<Rightarrow> bool" where
  "uinv h ropt U \<longleftrightarrow> closed h \<and> (\<forall>r. ropt = Some r \<longrightarrow> r < length h) \<and>
     (\<forall>a b u. a \<in> nodes h ropt \<and> b \<in> nodes h ropt \<and> url_at h a = Some u \<and> url_at h b = Some u
        \<longrightarrow> a = b) \<and>
     (\<forall>a u. a \<in> nodes h ropt \<and> url_at h a = Some u \<longrightarrow> u \<in> U)"

text \<open>
  The trees of a run. A commit grafts the new children under the task that settled; in
  every state of a run the root, when there is one, is the root of a stored tree, and
  every task still to run is a task node.
\<close>

fun graft :: "addr \<Rightarrow> atree list \<Rightarrow> atree \<Rightarrow> atree" where
  "graft p new (ANode a Ts) = ANode a (map (graft p new) Ts @ (if a = p then new else []))"

definition leaves :: "addr list \<Rightarrow> atree list" where
  "leaves as = map (\<lambda>a. ANode a []) as"

definition winv :: "nekopara \<Rightarrow> bool" where
  "winv st \<longleftrightarrow>
     (\<forall>r. crawlTree st = Some r \<longrightarrow> (\<exists>T. root T = r \<and> shape (heap st) T)) \<and>
     (\<forall>a \<in> set (pending st). task_at (heap st) a)"

text \<open>An instance built with no options, and a small store, for the examples.\<close>

definition plain_opts :: Options where
  "plain_opts = \<lparr>thread = None, interval = None, distinct_opt = None\<rparr>"

definition example_root :: TemplateFunc where
  "example_root u = Resolved [AddData (JNum 1), AddTask ''leaf'' ''b'']"

definition example_heap :: heap where
  "example_heap =
     [TaskNode Done ''root'' ''a'' [1, 2, 4], DataNode (Some (JNum 1)), TaskNode Done ''leaf'' ''b'' [3],
      DataNode (Some (JNum 2)), TaskNode Fail ''leaf'' ''c'' []]"

definition example_tree :: atree where
  "example_tree = ANode 0 [ANode 1 [], ANode 2 [ANode 3 []], ANode 4 []]"

text \<open>A short run: the entry task settles with one datum and one new task.\<close>

definition example_run :: "action list" where
  "example_run =
     [Register ''root'' example_root, Start [ArgStr ''root'', ArgStr ''a''], Run 0, Settle 0]"

definition example_state :: nekopara where
  "example_state = (init plain_opts)\<lparr>heap := [TaskNode Done ''root'' ''a'' [1, 2], DataNode (Some (JNum 1)),
        TaskNode Waiting ''leaf'' ''b'' []],
      crawlTree := Some 0, urlSet := {''a'', ''b''}, templates := [''root'' \<mapsto> example_root],
      taskQueue := [\<lparr>task_node = 2, task_template = ''leaf'', task_url = ''b''\<rparr>],
      timers := [DataEv (JNum 1)], busy := True, started := True\<rparr>"

section \<open>The traversal visits the nodes in pre-order\<close>

lemma get_data_simps [simp]: "get_data None = JUndefined" "get_data (Some v) = v"
  by (simp_all add: get_data_def)

lemma same_shape_refl [simp]: "same_shape h h"
  by (simp add: same_shape_def)

lemma same_shape_trans: "same_shape h h' \<Longrightarrow> same_shape h' h'' \<Longrightarrow> same_shape h h''"
  by (simp add: same_shape_def)

lemma same_shape_deref:
  assumes "same_shape h h'"
  shows "map_option skeleton (deref h a) = map_option skeleton (deref h' a)"
proof -
  from assms have m: "map skeleton h = map skeleton h'"
    by (simp add: same_shape_def)
  then have l: "length h = length h'"
    by (metis length_map)
  show ?thesis
  proof (cases "a < length h")
    case True
    then have "skeleton (h ! a) = skeleton (h' ! a)"
      using m l by (metis nth_map)
    then show ?thesis using True l by (simp add: deref_def)
  next
    case False
    then show ?thesis using l by (simp add: deref_def)
  qed
qed

lemma same_shape_task:
  assumes "same_shape h h'" "deref h a = Some (TaskNode s t u cs)"
  shows "\<exists>s' t' u'. deref h' a = Some (TaskNode s' t' u' cs)"
proof -
  from same_shape_deref[OF assms(1), of a] assms(2)
  have "map_option skeleton (deref h' a) = Some (Some cs)" by simp
  then obtain n where n: "deref h' a = Some n" "skeleton n = Some cs" by auto
  then show ?thesis by (cases n) auto
qed

lemma same_shape_data:
  assumes "same_shape h h'" "deref h a = Some (DataNode d)"
  shows "\<exists>d'. deref h' a = Some (DataNode d')"
proof -
  from same_shape_deref[OF assms(1), of a] assms(2)
  have "map_option skeleton (deref h' a) = Some None" by simp
  then obtain n where n: "deref h' a = Some n" "skeleton n = None" by auto
  then show ?thesis by (cases n) auto
qed

lemma shape_same_shape: "shape h T \<Longrightarrow> same_shape h h' \<Longrightarrow> shape h' T"
proof (induction T)
  case (ANode a Ts)
  from ANode.prems(1) obtain n where n: "deref h a = Some n"
    by (auto split: option.splits)
  show ?case
  proof (cases n)
    case (DataNode d)
    with n ANode.prems same_shape_data[OF ANode.prems(2)] show ?thesis
      by fastforce
  next
    case (TaskNode s t u cs)
    with n ANode.prems(1) have cs: "cs = map root Ts" and l: "list_all (shape h) Ts"
      by simp_all
    from same_shape_task[OF ANode.prems(2)] n TaskNode
    obtain s' t' u' where d': "deref h' a = Some (TaskNode s' t' u' cs)" by blast
    have "list_all (shape h') Ts"
      using l ANode.IH ANode.prems(2) by (simp add: list_all_iff)
    with d' cs show ?thesis by simp
  qed
qed

lemma preservingD:
  "preserving cb \<Longrightarrow> cb nd s = Inr s' \<Longrightarrow> same_shape (heap (fst s)) (heap (fst s'))"
  unfolding preserving_def by blast

lemma visit_append:
  "visit cb (xs @ ys) s = (case visit cb xs s of Inl e \<Rightarrow> Inl e | Inr s' \<Rightarrow> visit cb ys s')"
  by (induction xs arbitrary: s) (auto split: sum.splits)

lemma visit_same_shape:
  "preserving cb \<Longrightarrow> visit cb xs s = Inr s' \<Longrightarrow> same_shape (heap (fst s)) (heap (fst s'))"
proof (induction xs arbitrary: s)
  case Nil
  then show ?case by simp
next
  case (Cons a xs)
  from Cons.prems(2) obtain s1 where s1: "cb (Some a) s = Inr s1" "visit cb xs s1 = Inr s'"
    by (auto split: sum.splits)
  from preservingD[OF Cons.prems(1) s1(1)] Cons.IH[OF Cons.prems(1) s1(2)]
  show ?case by (rule same_shape_trans)
qed

lemma loop_nil: "traverse_loop cb [] s = Some (Inr s)"
  by (subst traverse_loop.simps) simp

lemma loop_pop:
  "cur tp = int (len tp) - 1 \<Longrightarrow> traverse_loop cb (tp # rest) s = traverse_loop cb rest s"
  by (subst traverse_loop.simps) simp

lemma loop_push:
  "cur tp \<noteq> int (len tp) - 1 \<Longrightarrow>
   traverse_loop cb (tp # rest) s =
     continue (children_of (heap (fst s)) (node tp))
       (\<lambda>children. continue (handle cb (index children (cur tp + 1)) (tp\<lparr>cur := cur tp + 1\<rparr> # rest) s)
          (\<lambda>(stack', s'). traverse_loop cb stack' s'))"
  by (subst traverse_loop.simps) (simp add: continue_def split: sum.splits)

lemma continue_Inr [simp]: "continue (Inr x) k = k x"
  by (simp add: continue_def)

lemma continue_Inl [simp]: "continue (Inl e) k = Some (Inl e)"
  by (simp add: continue_def)

lemma children_loop:
  assumes pres: "preserving cb"
    and IH: "\<And>T s stk. T \<in> set Ts \<Longrightarrow> shape (heap (fst s)) T \<Longrightarrow>
               continue (handle cb (Some (root T)) stk s) (\<lambda>(stk', s'). traverse_loop cb stk' s')
               = continue (visit cb (preorder T) s) (traverse_loop cb stk)"
  shows "set Ts' \<subseteq> set Ts \<Longrightarrow> list_all (shape (heap (fst s))) Ts' \<Longrightarrow>
         children_of (heap (fst s)) a = Inr cs \<Longrightarrow> drop k cs = map root Ts' \<Longrightarrow>
         k \<le> length cs \<Longrightarrow>
         traverse_loop cb (\<lparr>cur = int k - 1, len = length cs, node = a\<rparr> # stk) s
         = continue (visit cb (concat (map preorder Ts')) s) (traverse_loop cb stk)"
proof (induction Ts' arbitrary: k s)
  case Nil
  then have "k = length cs" by simp
  then show ?case by (simp add: loop_pop)
next
  case (Cons T Ts')
  from Cons.prems(4) have klt: "k < length cs"
    by (metis Cons.prems(5) drop_eq_Nil2 le_neq_implies_less list.simps(3) list.map_disc_iff nat_less_le not_le)
  have ck: "cs ! k = root T"
    using Cons.prems(4) klt by (metis nth_via_drop list.simps(9))
  have dk: "drop (Suc k) cs = map root Ts'"
    using Cons.prems(4) by (metis drop_Suc list.sel(3) list.simps(9) tl_drop)
  have idx: "index cs (int k) = Some (root T)"
    using klt ck by (simp add: index_def)
  have Tin: "T \<in> set Ts" using Cons.prems(1) by simp
  have shT: "shape (heap (fst s)) T" using Cons.prems(2) by simp
  let ?fr = "\<lparr>cur = int k - 1, len = length cs, node = a\<rparr>"
  have ne: "cur ?fr \<noteq> int (len ?fr) - 1" using klt by simp
  have step: "traverse_loop cb (?fr # stk) s
      = continue (visit cb (preorder T) s) (traverse_loop cb (\<lparr>cur = int (Suc k) - 1, len = length cs, node = a\<rparr> # stk))"
    using IH[OF Tin shT, of "\<lparr>cur = int (Suc k) - 1, len = length cs, node = a\<rparr> # stk"]
    by (simp add: loop_push[OF ne] Cons.prems(3) idx)
  show ?case
  proof (cases "visit cb (preorder T) s")
    case (Inl e)
    then show ?thesis by (simp add: step visit_append)
  next
    case (Inr s1)
    have ss: "same_shape (heap (fst s)) (heap (fst s1))"
      using visit_same_shape[OF pres Inr] .
    have l1: "list_all (shape (heap (fst s1))) Ts'"
      using Cons.prems(2) ss by (auto simp: list_all_iff intro: shape_same_shape)
    from Cons.prems(3) obtain s0 t0 u0 where "deref (heap (fst s)) a = Some (TaskNode s0 t0 u0 cs)"
      by (auto simp: children_of_def split: option.splits node.splits)
    from same_shape_task[OF ss this] have c1: "children_of (heap (fst s1)) a = Inr cs"
      by (auto simp: children_of_def)
    have "traverse_loop cb (\<lparr>cur = int (Suc k) - 1, len = length cs, node = a\<rparr> # stk) s1
          = continue (visit cb (concat (map preorder Ts')) s1) (traverse_loop cb stk)"
      using Cons.IH[of s1 "Suc k"] Cons.prems(1) l1 c1 dk klt by simp
    then show ?thesis by (simp add: step Inr visit_append)
  qed
qed

lemma handle_traverse:
  assumes pres: "preserving cb"
  shows "shape (heap (fst s)) T \<Longrightarrow>
         continue (handle cb (Some (root T)) stk s) (\<lambda>(stk', s'). traverse_loop cb stk' s')
         = continue (visit cb (preorder T) s) (traverse_loop cb stk)"
proof (induction T arbitrary: s stk)
  case (ANode a Ts)
  show ?case
  proof (cases "cb (Some a) s")
    case (Inl e)
    then show ?thesis by (simp add: handle_def)
  next
    case (Inr s1)
    have ss: "same_shape (heap (fst s)) (heap (fst s1))"
      using preservingD[OF pres Inr] .
    have sh1: "shape (heap (fst s1)) (ANode a Ts)"
      using shape_same_shape[OF ANode.prems ss] .
    then obtain n where n: "deref (heap (fst s1)) a = Some n"
      by (auto split: option.splits)
    show ?thesis
    proof (cases n)
      case (DataNode d)
      with n sh1 have "Ts = []" by simp
      with n DataNode Inr show ?thesis by (simp add: handle_def)
    next
      case (TaskNode s0 t0 u0 cs)
      with n sh1 have cs: "cs = map root Ts" and l: "list_all (shape (heap (fst s1))) Ts"
        by simp_all
      have c: "children_of (heap (fst s1)) a = Inr cs"
        using n TaskNode by (simp add: children_of_def)
      have "traverse_loop cb (\<lparr>cur = int 0 - 1, len = length cs, node = a\<rparr> # stk) s1
            = continue (visit cb (concat (map preorder Ts)) s1) (traverse_loop cb stk)"
        using children_loop[OF pres ANode.IH, where Ts' = Ts and k = 0 and s = s1 and a = a
            and cs = cs and stk = stk] l c cs
        by simp
      then show ?thesis using n TaskNode Inr by (simp add: handle_def)
    qed
  qed
qed

lemma preOrderTraversal_visit:
  assumes "preserving cb" "shape (heap (fst s)) T"
  shows "preOrderTraversal (Some (root T)) cb s = Some (visit cb (preorder T) s)"
proof -
  have "preOrderTraversal (Some (root T)) cb s
        = continue (handle cb (Some (root T)) [] s) (\<lambda>(stk', s'). traverse_loop cb stk' s')"
    by (simp add: preOrderTraversal_def continue_def split: sum.splits)
  also have "\<dots> = continue (visit cb (preorder T) s) (traverse_loop cb [])"
    by (rule handle_traverse[OF assms])
  also have "\<dots> = Some (visit cb (preorder T) s)"
    by (cases "visit cb (preorder T) s") (simp_all add: loop_nil)
  finally show ?thesis .
qed

section \<open>Results: the list and the flag\<close>

lemma getResults_cb_preserving: "preserving getResults_cb"
  unfolding preserving_def getResults_cb_def
  by (auto split: option.splits node.splits)

lemma shape_deref: "shape h T \<Longrightarrow> a \<in> set (preorder T) \<Longrightarrow> deref h a \<noteq> None"
proof (induction T)
  case (ANode b Ts)
  show ?case
  proof (cases "a = b")
    case True
    with ANode.prems(1) show ?thesis by (auto split: option.splits)
  next
    case False
    with ANode.prems(2) obtain T where T: "T \<in> set Ts" "a \<in> set (preorder T)" by auto
    with ANode.prems(1) have "shape h T"
      by (auto split: option.splits node.splits simp: list_all_iff)
    with ANode.IH T show ?thesis by blast
  qed
qed

lemma visit_getResults:
  "\<forall>a \<in> set as. deref (heap st) a \<noteq> None \<Longrightarrow>
   visit getResults_cb as (st, acc) =
     Inr (st, \<lparr>list = list acc @ concat (map (payload_at (heap st)) as),
               complete = (complete acc \<and> list_all (done_at (heap st)) as)\<rparr>)"
proof (induction as arbitrary: acc)
  case Nil
  then show ?case by simp
next
  case (Cons a as)
  then show ?case
    by (auto simp: getResults_cb_def payload_at_def done_at_def split: node.splits)
qed

lemma concat_map_concat_map:
  "concat (map f (concat (map g xs))) = concat (map (\<lambda>x. concat (map f (g x))) xs)"
  by (induction xs) simp_all

lemma data_of_val:
  "shape h T \<Longrightarrow> concat (map (payload_at h) (preorder T)) = data_of (val h T)"
proof (induction T)
  case (ANode a Ts)
  from ANode.prems obtain n where n: "deref h a = Some n" by (auto split: option.splits)
  show ?case
  proof (cases n)
    case (DataNode d)
    with n ANode.prems show ?thesis by (simp add: payload_at_def)
  next
    case (TaskNode s t u cs)
    with n ANode.prems have l: "list_all (shape h) Ts" by simp
    have "map (\<lambda>T. concat (map (payload_at h) (preorder T))) Ts = map (\<lambda>T. data_of (val h T)) Ts"
      using ANode.IH l by (simp add: list_all_iff)
    then have "concat (map (payload_at h) (concat (map preorder Ts))) = concat (map (data_of \<circ> val h) Ts)"
      by (simp only: concat_map_concat_map comp_def)
    moreover have "payload_at h a = []"
      using n TaskNode by (simp add: payload_at_def)
    ultimately show ?thesis using n TaskNode by simp
  qed
qed

lemma all_done_val:
  "shape h T \<Longrightarrow> list_all (done_at h) (preorder T) = all_done (val h T)"
proof (induction T)
  case (ANode a Ts)
  from ANode.prems obtain n where n: "deref h a = Some n" by (auto split: option.splits)
  show ?case
  proof (cases n)
    case (DataNode d)
    with n ANode.prems show ?thesis by (simp add: done_at_def)
  next
    case (TaskNode s t u cs)
    with n ANode.prems have l: "list_all (shape h) Ts" by simp
    have "\<forall>T \<in> set Ts. list_all (done_at h) (preorder T) = all_done (val h T)"
      using ANode.IH l by (simp add: list_all_iff)
    then have "list_all (done_at h) (concat (map preorder Ts)) = list_all all_done (map (val h) Ts)"
      by (simp add: list_all_iff)
    moreover have "done_at h a = (s = Done)"
      using n TaskNode by (simp add: done_at_def)
    ultimately show ?thesis using n TaskNode by simp
  qed
qed

text \<open>
  The results of a stored tree: the payloads of its data nodes in pre-order, and whether
  all its task nodes are done.
\<close>

lemma getResults_shape:
  assumes "crawlTree st = Some (root T)" "shape (heap st) T"
  shows "getResults st =
           Some (Inr \<lparr>list = data_of (val (heap st) T), complete = all_done (val (heap st) T)\<rparr>)"
proof -
  have "preOrderTraversal (Some (root T)) getResults_cb (st, \<lparr>list = [], complete = True\<rparr>)
        = Some (visit getResults_cb (preorder T) (st, \<lparr>list = [], complete = True\<rparr>))"
    by (rule preOrderTraversal_visit[OF getResults_cb_preserving]) (simp add: assms)
  moreover have "\<forall>a \<in> set (preorder T). deref (heap st) a \<noteq> None"
    using shape_deref[OF assms(2)] by blast
  ultimately show ?thesis
    using assms data_of_val[OF assms(2)] all_done_val[OF assms(2)]
    by (simp add: getResults_def visit_getResults)
qed

lemma getResults_example:
  "getResults ((init plain_opts)\<lparr>heap := example_heap, crawlTree := Some 0\<rparr>)
   = Some (Inr \<lparr>list = [JNum 1, JNum 2], complete = False\<rparr>)"
  using getResults_shape[of "(init plain_opts)\<lparr>heap := example_heap, crawlTree := Some 0\<rparr>" example_tree]
  by (simp add: example_heap_def example_tree_def deref_def)

section \<open>Results of an instance that was never started\<close>

text \<open>
  C4. The claim: \<^verbatim>\<open>getResults()\<close> may be called at any time, also before any run has
  been started, while the crawl tree is still \<^verbatim>\<open>null\<close>, and returns a result. The code:
  on a new instance the traversal calls the callback on \<^verbatim>\<open>null\<close>, and reading
  \<^verbatim>\<open>node.type\<close> raises a \<^verbatim>\<open>TypeError\<close>.
\<close>

theorem getResults_before_start:
  "getResults (init opts) = Some (Inl TypeError)"
  by (simp add: getResults_def preOrderTraversal_def handle_def getResults_cb_def init_def)

section \<open>Resuming from a snapshot\<close>

lemma length_objects:
  "length (objects b t) = count t"
  "length (objects_list b ts) = sum_list (map count ts)"
  by (induction b t and b ts rule: objects_objects_list.induct) simp_all

lemma roots_addr_trees: "map root (addr_trees b ts) = child_addrs b ts"
  by (induction ts arbitrary: b) (simp_all, (case_tac a; simp))

lemma preorder_addr_tree:
  "preorder (addr_tree b t) = [b..<b + count t]"
  "concat (map preorder (addr_trees b ts)) = [b..<b + sum_list (map count ts)]"
proof (induction b t and b ts rule: addr_tree_addr_trees.induct)
  case (1 b d)
  then show ?case by simp
next
  case (2 b s t u ts)
  then show ?case by (simp add: upt_conv_Cons del: upt_Suc)
next
  case (3 b)
  then show ?case by simp
next
  case (4 b t ts)
  have "[b..<b + (count t + sum_list (map count ts))]
        = [b..<b + count t] @ [b + count t..<b + count t + sum_list (map count ts)]"
    by (metis add.assoc le_add1 upt_add_eq_append)
  with 4 show ?case by simp
qed

lemma deref_mid: "deref (pre @ x # post) (length pre) = Some x"
  by (simp add: deref_def)

lemma shape_val_objects:
  "\<And>pre post. length pre = b \<Longrightarrow>
     shape (pre @ objects b t @ post) (addr_tree b t) \<and>
     val (pre @ objects b t @ post) (addr_tree b t) = t"
  "\<And>pre post. length pre = b \<Longrightarrow>
     list_all (shape (pre @ objects_list b ts @ post)) (addr_trees b ts) \<and>
     map (val (pre @ objects_list b ts @ post)) (addr_trees b ts) = ts"
proof (induction b t and b ts rule: objects_objects_list.induct)
  case (1 b d)
  then show ?case using deref_mid[of pre "DataNode d" post] by simp
next
  case (2 b s t u ts)
  let ?n = "TaskNode s t u (child_addrs (Suc b) ts)"
  have d: "deref (pre @ ?n # objects_list (Suc b) ts @ post) b = Some ?n"
    using deref_mid[of pre ?n] 2(2) by simp
  have "pre @ ?n # objects_list (Suc b) ts @ post = (pre @ [?n]) @ objects_list (Suc b) ts @ post"
    by simp
  moreover have "length (pre @ [?n]) = Suc b" using 2(2) by simp
  ultimately have
    "list_all (shape (pre @ ?n # objects_list (Suc b) ts @ post)) (addr_trees (Suc b) ts) \<and>
     map (val (pre @ ?n # objects_list (Suc b) ts @ post)) (addr_trees (Suc b) ts) = ts"
    using 2(1)[of "pre @ [?n]" post] by simp
  with d show ?case by (simp add: roots_addr_trees)
next
  case (3 b)
  then show ?case by simp
next
  case (4 b t ts)
  let ?h = "pre @ (objects b t @ objects_list (b + count t) ts) @ post"
  have a: "shape ?h (addr_tree b t) \<and> val ?h (addr_tree b t) = t"
    using 4(1)[of pre "objects_list (b + count t) ts @ post"] 4(3) by simp
  have "?h = (pre @ objects b t) @ objects_list (b + count t) ts @ post" by simp
  moreover have "length (pre @ objects b t) = b + count t"
    using 4(3) by (simp add: length_objects)
  ultimately have b: "list_all (shape ?h) (addr_trees (b + count t) ts) \<and>
     map (val ?h) (addr_trees (b + count t) ts) = ts"
    using 4(2)[of "pre @ objects b t" post] by simp
  from a b show ?case by simp
qed

lemma skeleton_set_state: "map skeleton (set_state h a s) = map skeleton h"
  by (auto simp: set_state_def deref_def map_update list_update_same_conv split: node.splits)

lemma startWithSnapshot_cb_preserving: "preserving startWithSnapshot_cb"
  unfolding preserving_def startWithSnapshot_cb_def same_shape_def
  by (auto split: option.splits node.splits if_splits simp: addTask_def skeleton_set_state)


lemma set_state_mid:
  "set_state (pre @ TaskNode s t u cs # post) (length pre) s' = pre @ TaskNode s' t u cs # post"
  by (simp add: set_state_def deref_mid)

lemma visit_resume:
  "heap st = pre @ os @ post \<Longrightarrow> length pre = k \<Longrightarrow>
   visit startWithSnapshot_cb [k..<k + length os] (st, c) =
     Inr (st\<lparr>heap := pre @ map reset os @ post,
             urlSet := urlSet st \<union> set (urls_of os),
             taskQueue := taskQueue st @ tasks_of k os,
             busy := (busy st \<or> tasks_of k os \<noteq> [])\<rparr>,
          c \<and> tasks_of k os = [])"
proof (induction os arbitrary: pre k st c)
  case Nil
  then show ?case by simp
next
  case (Cons ob os)
  have up: "[k..<k + length (ob # os)] = k # [Suc k..<Suc k + length os]"
    by (simp add: upt_conv_Cons del: upt_Suc)
  have d: "deref (heap st) k = Some ob"
    using Cons.prems deref_mid[of pre ob "os @ post"] by simp
  show ?case
  proof (cases ob)
    case (DataNode dd)
    have "visit startWithSnapshot_cb [Suc k..<Suc k + length os] (st, c) =
       Inr (st\<lparr>heap := (pre @ [ob]) @ map reset os @ post,
             urlSet := urlSet st \<union> set (urls_of os),
             taskQueue := taskQueue st @ tasks_of (Suc k) os,
             busy := (busy st \<or> tasks_of (Suc k) os \<noteq> [])\<rparr>,
          c \<and> tasks_of (Suc k) os = [])"
      by (rule Cons.IH) (use Cons.prems in simp_all)
    moreover have "startWithSnapshot_cb (Some k) (st, c) = Inr (st, c)"
      using d DataNode by (simp add: startWithSnapshot_cb_def)
    ultimately have "visit startWithSnapshot_cb [k..<k + length (ob # os)] (st, c) =
       Inr (st\<lparr>heap := (pre @ [ob]) @ map reset os @ post,
             urlSet := urlSet st \<union> set (urls_of os),
             taskQueue := taskQueue st @ tasks_of (Suc k) os,
             busy := (busy st \<or> tasks_of (Suc k) os \<noteq> [])\<rparr>,
          c \<and> tasks_of (Suc k) os = [])"
      unfolding up by (simp only: visit.simps sum.case)
    then show ?thesis
      using DataNode by simp
  next
    case (TaskNode s t u cs)
    show ?thesis
    proof (cases "s = Done")
      case True
      let ?st1 = "st\<lparr>urlSet := insert u (urlSet st)\<rparr>"
      have "visit startWithSnapshot_cb [Suc k..<Suc k + length os] (?st1, c) =
       Inr (?st1\<lparr>heap := (pre @ [ob]) @ map reset os @ post,
             urlSet := urlSet ?st1 \<union> set (urls_of os),
             taskQueue := taskQueue ?st1 @ tasks_of (Suc k) os,
             busy := (busy ?st1 \<or> tasks_of (Suc k) os \<noteq> [])\<rparr>,
          c \<and> tasks_of (Suc k) os = [])"
        by (rule Cons.IH) (use Cons.prems in simp_all)
      moreover have "startWithSnapshot_cb (Some k) (st, c) = Inr (?st1, c)"
        using d TaskNode True by (simp add: startWithSnapshot_cb_def)
      ultimately have "visit startWithSnapshot_cb [k..<k + length (ob # os)] (st, c) =
       Inr (?st1\<lparr>heap := (pre @ [ob]) @ map reset os @ post,
             urlSet := urlSet ?st1 \<union> set (urls_of os),
             taskQueue := taskQueue ?st1 @ tasks_of (Suc k) os,
             busy := (busy ?st1 \<or> tasks_of (Suc k) os \<noteq> [])\<rparr>,
          c \<and> tasks_of (Suc k) os = [])"
        unfolding up by (simp only: visit.simps sum.case)
      then show ?thesis
        using TaskNode True by simp
    next
      case False
      let ?tk = "\<lparr>task_node = k, task_template = t, task_url = u\<rparr>"
      let ?st1 = "st\<lparr>urlSet := insert u (urlSet st),
                      heap := pre @ TaskNode Waiting t u cs # os @ post,
                      taskQueue := taskQueue st @ [?tk], busy := True\<rparr>"
      have cb: "startWithSnapshot_cb (Some k) (st, c) = Inr (?st1, False)"
        using d TaskNode False Cons.prems set_state_mid[of pre s t u cs "os @ post" Waiting]
        by (simp add: startWithSnapshot_cb_def addTask_def)
      have "visit startWithSnapshot_cb [Suc k..<Suc k + length os] (?st1, False) =
       Inr (?st1\<lparr>heap := (pre @ [TaskNode Waiting t u cs]) @ map reset os @ post,
             urlSet := urlSet ?st1 \<union> set (urls_of os),
             taskQueue := taskQueue ?st1 @ tasks_of (Suc k) os,
             busy := (busy ?st1 \<or> tasks_of (Suc k) os \<noteq> [])\<rparr>,
          False \<and> tasks_of (Suc k) os = [])"
        by (rule Cons.IH) (use Cons.prems in simp_all)
      with cb have "visit startWithSnapshot_cb [k..<k + length (ob # os)] (st, c) =
       Inr (?st1\<lparr>heap := (pre @ [TaskNode Waiting t u cs]) @ map reset os @ post,
             urlSet := urlSet ?st1 \<union> set (urls_of os),
             taskQueue := taskQueue ?st1 @ tasks_of (Suc k) os,
             busy := (busy ?st1 \<or> tasks_of (Suc k) os \<noteq> [])\<rparr>,
          False \<and> tasks_of (Suc k) os = [])"
        unfolding up by (simp only: visit.simps sum.case)
      then show ?thesis
        using TaskNode False by simp
    qed
  qed
qed

lemma tasks_of_append: "tasks_of k (xs @ ys) = tasks_of k xs @ tasks_of (k + length xs) ys"
  by (induction k xs rule: tasks_of.induct) simp_all

lemma urls_of_append: "urls_of (xs @ ys) = urls_of xs @ urls_of ys"
  by (induction xs rule: urls_of.induct) simp_all

lemma count_reset_states: "count (reset_states t) = count t"
  by (induction t) (simp_all add: comp_def cong: map_cong)

lemma child_addrs_reset: "child_addrs b (map reset_states ts) = child_addrs b ts"
  by (induction ts arbitrary: b) (simp_all add: count_reset_states)

lemma objects_reset:
  "map reset (objects b t) = objects b (reset_states t)"
  "map reset (objects_list b ts) = objects_list b (map reset_states ts)"
  by (induction b t and b ts rule: objects_objects_list.induct)
     (simp_all add: child_addrs_reset count_reset_states)

lemma objects_tasks:
  "tasks_of b (objects b t) = redispatch b t"
  "tasks_of b (objects_list b ts) = redispatch_list b ts"
  by (induction b t and b ts rule: objects_objects_list.induct)
     (simp_all add: tasks_of_append length_objects)

lemma objects_urls:
  "urls_of (objects b t) = task_urls t"
  "urls_of (objects_list b ts) = concat (map task_urls ts)"
  by (induction b t and b ts rule: objects_objects_list.induct)
     (simp_all add: urls_of_append)

lemma redispatch_all_done:
  "(redispatch b t = []) = all_done t"
  "(redispatch_list b ts = []) = list_all all_done ts"
  by (induction b t and b ts rule: redispatch_redispatch_list.induct) simp_all

lemma those_eq_Some: "those xs = Some ys \<longleftrightarrow> xs = map Some ys"
proof (induction xs arbitrary: ys)
  case Nil
  then show ?case by auto
next
  case (Cons x xs)
  then show ?case by (cases x; cases ys) (auto split: option.splits)
qed

lemma those_map_eq_Some:
  "those (map f xs) = Some ys \<longleftrightarrow> list_all2 (\<lambda>x y. f x = Some y) xs ys"
proof -
  have "map f xs = map Some ys \<longleftrightarrow> list_all2 (=) (map f xs) (map Some ys)"
    by (simp add: list.rel_eq)
  then show ?thesis
    by (simp add: those_eq_Some list.rel_map)
qed

lemma json_tree_outline: "json_tree t = Some d \<Longrightarrow> outline d = outline t"
proof (induction t arbitrary: d)
  case (DataT x)
  then show ?case by (auto split: option.splits written.splits)
next
  case (TaskT s tp u ts)
  from TaskT.prems obtain ds where
    ds: "those (map json_tree ts) = Some ds" and d: "d = TaskT s tp u ds"
    by auto
  from ds have "list_all2 (\<lambda>x y. json_tree x = Some y) ts ds"
    by (simp only: those_map_eq_Some)
  then have len: "length ts = length ds"
    and nth: "\<forall>i < length ts. json_tree (ts ! i) = Some (ds ! i)"
    by (simp_all add: list_all2_conv_all_nth)
  have "map outline ds = map outline ts"
  proof (rule nth_equalityI)
    show "length (map outline ds) = length (map outline ts)" using len by simp
  next
    fix i assume "i < length (map outline ds)"
    then have i: "i < length ts" using len by simp
    then have "outline (ds ! i) = outline (ts ! i)"
      using TaskT.IH[of "ts ! i" "ds ! i"] nth by simp
    then show "map outline ds ! i = map outline ts ! i" using i len by simp
  qed
  then show ?case using d by simp
qed

lemma count_outline: "count (outline t) = count t"
  by (induction t) (simp_all add: comp_def cong: map_cong)

lemma all_done_outline: "all_done (outline t) = all_done t"
  by (induction t) (simp_all add: list_all_iff)

lemma task_urls_outline: "task_urls (outline t) = task_urls t"
  by (induction t) (simp_all add: comp_def cong: map_cong)

lemma redispatch_outline:
  "redispatch b (outline t) = redispatch b t"
  "redispatch_list b (map outline ts) = redispatch_list b ts"
  by (induction b t and b ts rule: redispatch_redispatch_list.induct)
     (simp_all add: count_outline)

lemma count_json_tree: "json_tree t = Some d \<Longrightarrow> count d = count t"
  using count_outline[of d] count_outline[of t] by (simp add: json_tree_outline)

lemma all_done_json_tree: "json_tree t = Some d \<Longrightarrow> all_done d = all_done t"
  using all_done_outline[of d] all_done_outline[of t] by (simp add: json_tree_outline)

lemma task_urls_json_tree: "json_tree t = Some d \<Longrightarrow> task_urls d = task_urls t"
  using task_urls_outline[of d] task_urls_outline[of t] by (simp add: json_tree_outline)

lemma redispatch_json_tree: "json_tree t = Some d \<Longrightarrow> redispatch b d = redispatch b t"
  using redispatch_outline(1)[of b d] redispatch_outline(1)[of b t]
  by (simp add: json_tree_outline)

lemma startWithSnapshot_throws:
  "json_tree snap = None \<Longrightarrow> startWithSnapshot snap st = Some (Inl TypeError)"
  by (simp add: startWithSnapshot_def)

lemma startWithSnapshot_visit:
  assumes "json_tree snap = Some doc"
  shows "startWithSnapshot snap st =
     (case visit startWithSnapshot_cb [length (heap st)..<length (heap st) + count doc]
             (st\<lparr>heap := heap st @ objects (length (heap st)) doc,
                 crawlTree := Some (length (heap st))\<rparr>, True) of
        Inl e \<Rightarrow> Some (Inl e)
      | Inr s \<Rightarrow> Some (Inr (if snd s then onDone (fst s) else fst s)))"
proof -
  let ?b = "length (heap st)" and ?doc = doc
  let ?st1 = "st\<lparr>heap := heap st @ objects ?b ?doc, crawlTree := Some ?b\<rparr>"
  have sh: "shape (heap (fst (?st1, True))) (addr_tree ?b ?doc)"
    using shape_val_objects(1)[of "heap st" ?b ?doc "[]"] by simp
  have r: "root (addr_tree ?b ?doc) = ?b" by (cases ?doc) simp_all
  have "preOrderTraversal (Some ?b) startWithSnapshot_cb (?st1, True)
        = Some (visit startWithSnapshot_cb (preorder (addr_tree ?b ?doc)) (?st1, True))"
    using preOrderTraversal_visit[OF startWithSnapshot_cb_preserving sh] r by simp
  then show ?thesis
    by (simp add: startWithSnapshot_def assms parse_def preorder_addr_tree split: sum.splits)
qed

lemma startWithSnapshot_doc:
  assumes "json_tree snap = Some doc"
  shows "startWithSnapshot snap st =
     Some (Inr ((if all_done doc then onDone else id)
       (st\<lparr>heap := heap st @ objects (length (heap st)) (reset_states doc),
           crawlTree := Some (length (heap st)),
           urlSet := urlSet st \<union> set (task_urls doc),
           taskQueue := taskQueue st @ redispatch (length (heap st)) doc,
           busy := (busy st \<or> redispatch (length (heap st)) doc \<noteq> [])\<rparr>)))"
proof -
  let ?b = "length (heap st)" and ?doc = doc
  let ?st1 = "st\<lparr>heap := heap st @ objects ?b ?doc, crawlTree := Some ?b\<rparr>"
  let ?st2 = "st\<lparr>heap := heap st @ objects ?b (reset_states ?doc),
           crawlTree := Some ?b,
           urlSet := urlSet st \<union> set (task_urls ?doc),
           taskQueue := taskQueue st @ redispatch ?b ?doc,
           busy := (busy st \<or> redispatch ?b ?doc \<noteq> [])\<rparr>"
  have "visit startWithSnapshot_cb [?b..<?b + length (objects ?b ?doc)] (?st1, True) =
     Inr (?st1\<lparr>heap := heap st @ map reset (objects ?b ?doc) @ [],
             urlSet := urlSet ?st1 \<union> set (urls_of (objects ?b ?doc)),
             taskQueue := taskQueue ?st1 @ tasks_of ?b (objects ?b ?doc),
             busy := (busy ?st1 \<or> tasks_of ?b (objects ?b ?doc) \<noteq> [])\<rparr>,
          True \<and> tasks_of ?b (objects ?b ?doc) = [])"
    by (rule visit_resume) simp_all
  then have v: "visit startWithSnapshot_cb [?b..<?b + count ?doc] (?st1, True)
      = Inr (?st2, redispatch ?b ?doc = [])"
    by (simp add: length_objects objects_reset objects_tasks objects_urls)
  show ?thesis
    unfolding startWithSnapshot_visit[OF assms] v by (simp add: redispatch_all_done)
qed

text \<open>The effect of \<^verbatim>\<open>startWithSnapshot\<close> in closed form: \<open>doc\<close> is the document of the
  snapshot, which has the states, templates, URLs and nesting of the snapshot.\<close>

lemma startWithSnapshot_result:
  assumes "json_tree snap = Some doc"
  shows "startWithSnapshot snap st =
     Some (Inr ((if all_done snap then onDone else id)
       (st\<lparr>heap := heap st @ objects (length (heap st)) (reset_states doc),
           crawlTree := Some (length (heap st)),
           urlSet := urlSet st \<union> set (task_urls snap),
           taskQueue := taskQueue st @ redispatch (length (heap st)) snap,
           busy := (busy st \<or> redispatch (length (heap st)) snap \<noteq> [])\<rparr>)))"
  unfolding startWithSnapshot_doc[OF assms]
  by (simp only: all_done_json_tree[OF assms] task_urls_json_tree[OF assms]
      redispatch_json_tree[OF assms])

lemma reset_states_all_done: "all_done t \<Longrightarrow> reset_states t = t"
  by (induction t) (simp_all add: list_all_iff map_idI)

text \<open>
  C7. Starting from a snapshot re-dispatches exactly the task nodes that are not done
  (waiting or failed), each with its state reset to waiting, leaves the done nodes as they
  are, and records the URL of every task node of the restored tree in the dedup registry.
  The restored tree is the document \<open>doc\<close> of the snapshot with the states reset; the tasks
  submitted are \<open>redispatch\<close> of the snapshot. A snapshot with a payload that JSON refuses
  has no document: the call throws before it changes anything. A snapshot that
  \<^verbatim>\<open>snapshot()\<close> returned is its own document (\<open>json_tree_plain\<close> below).
\<close>

theorem resume_redispatches_unfinished:
  assumes "\<not> started st"
  shows "start [ArgNode snap] st =
     (case json_tree snap of
        None \<Rightarrow> Some (Inl TypeError)
      | Some doc \<Rightarrow>
          Some (Inr (((if all_done snap then onDone else id)
            (st\<lparr>heap := heap st @ objects (length (heap st)) (reset_states doc),
                crawlTree := Some (length (heap st)),
                urlSet := urlSet st \<union> set (task_urls snap),
                taskQueue := taskQueue st @ redispatch (length (heap st)) snap,
                busy := (busy st \<or> redispatch (length (heap st)) snap \<noteq> [])\<rparr>))
            \<lparr>started := True\<rparr>)))"
proof (cases "json_tree snap")
  case None
  then show ?thesis
    using assms by (simp add: start_def and_then_def startWithSnapshot_throws)
next
  case (Some doc)
  then show ?thesis
    using assms by (simp add: start_def and_then_def startWithSnapshot_result[OF Some])
qed

theorem resume_redispatches_unfinished_witness:
  "start [ArgNode (TaskT Done ''root'' ''a''
            [DataT (Some (JNum 1)), TaskT Fail ''leaf'' ''b'' [], TaskT Waiting ''leaf'' ''c'' []])]
     (init plain_opts)
   = Some (Inr ((init plain_opts)
       \<lparr>heap := [TaskNode Done ''root'' ''a'' [1, 2, 3], DataNode (Some (JNum 1)),
                 TaskNode Waiting ''leaf'' ''b'' [], TaskNode Waiting ''leaf'' ''c'' []],
        crawlTree := Some 0,
        urlSet := {''a'', ''b'', ''c''},
        taskQueue := [\<lparr>task_node = 2, task_template = ''leaf'', task_url = ''b''\<rparr>,
                      \<lparr>task_node = 3, task_template = ''leaf'', task_url = ''c''\<rparr>],
        busy := True, started := True\<rparr>))"
  using resume_redispatches_unfinished[of "init plain_opts" "TaskT Done ''root'' ''a''
            [DataT (Some (JNum 1)), TaskT Fail ''leaf'' ''b'' [], TaskT Waiting ''leaf'' ''c'' []]"]
  by (simp add: init_def)

text \<open>
  C6. Starting from a snapshot in which every task node is done dispatches nothing and
  changes no node of the restored tree (the store only gains the objects of the
  snapshot's document \<open>doc\<close>); the \<^verbatim>\<open>done\<close> event is not emitted during the call but by a
  timer, which fires in a later turn. The instance is one that was neither started nor
  stopped, with no timer pending. A snapshot with a payload that JSON refuses has no
  document: the call throws before it changes anything. A snapshot that \<^verbatim>\<open>snapshot()\<close>
  returned is its own document (\<open>json_tree_plain\<close> below).
\<close>

theorem start_complete_snapshot:
  assumes "\<not> started st" "\<not> stopped st" "all_done snap" "timers st = []"
  shows "case json_tree snap of
           None \<Rightarrow> start [ArgNode snap] st = Some (Inl TypeError)
         | Some doc \<Rightarrow>
             (\<exists>st'. start [ArgNode snap] st = Some (Inr st') \<and>
                st' = st\<lparr>heap := heap st @ objects (length (heap st)) doc,
                          crawlTree := Some (length (heap st)),
                          urlSet := urlSet st \<union> set (task_urls snap),
                          timers := [DoneEv],
                          started := True\<rparr> \<and>
                perform Tick st' =
                  Some (Inr (st'\<lparr>timers := [], emitted := emitted st @ [DoneEv]\<rparr>)))"
proof (cases "json_tree snap")
  case None
  then show ?thesis
    using assms by (simp add: start_def and_then_def startWithSnapshot_throws)
next
  case (Some doc)
  have "all_done doc" using assms(3) all_done_json_tree[OF Some] by simp
  then have "reset_states doc = doc" by (rule reset_states_all_done)
  then show ?thesis
    using assms Some
    by (simp add: start_def and_then_def startWithSnapshot_result[OF Some]
        redispatch_all_done[THEN iffD2] onDone_def perform_def)
qed

theorem start_complete_snapshot_witness:
  "start [ArgNode (TaskT Done ''root'' ''a'' [DataT (Some (JNum 1))])] (init plain_opts)
   = Some (Inr ((init plain_opts)
       \<lparr>heap := [TaskNode Done ''root'' ''a'' [1], DataNode (Some (JNum 1))],
        crawlTree := Some 0, urlSet := {''a''}, timers := [DoneEv], started := True\<rparr>))
   \<and> perform Tick ((init plain_opts)
       \<lparr>heap := [TaskNode Done ''root'' ''a'' [1], DataNode (Some (JNum 1))],
        crawlTree := Some 0, urlSet := {''a''}, timers := [DoneEv], started := True\<rparr>)
     = Some (Inr ((init plain_opts)
       \<lparr>heap := [TaskNode Done ''root'' ''a'' [1], DataNode (Some (JNum 1))],
        crawlTree := Some 0, urlSet := {''a''}, timers := [], started := True,
        emitted := [DoneEv]\<rparr>))"
  using start_complete_snapshot[of "init plain_opts" "TaskT Done ''root'' ''a'' [DataT (Some (JNum 1))]"]
  by (simp add: init_def)

section \<open>Snapshots are copies\<close>

lemma jsonify_plain: "plain v \<Longrightarrow> jsonify v = Written v"
proof (induction v)
  case (JArr vs)
  then have "\<forall>v \<in> set vs. jsonify v = Written v" by (simp add: list_all_iff)
  then have m: "map jsonify vs = map Written vs" by simp
  have "Throws \<notin> set (map Written vs)" by auto
  moreover have "map element (map Written vs) = vs" by (simp add: comp_def element_def)
  ultimately show ?case unfolding jsonify.simps m by simp
next
  case (JObj kvs)
  then have "\<forall>kv \<in> set kvs. jsonify (snd kv) = Written (snd kv)"
    by (auto simp: list_all_iff snds.simps)
  then have m: "map (map_prod id jsonify) kvs = map (map_prod id Written) kvs"
    by (auto simp: map_prod_def split: prod.splits)
  have "Throws \<notin> snd ` set (map (map_prod id Written) kvs)" by auto
  moreover have "List.map_filter member (map (map_prod id Written) kvs) = kvs"
    by (induction kvs) (auto simp: List.map_filter_simps member_def)
  ultimately show ?case unfolding jsonify.simps m by simp
qed simp_all

lemma plain_element: "(\<And>w. x = Written w \<Longrightarrow> plain w) \<Longrightarrow> plain (element x)"
  by (cases x) (simp_all add: element_def)

lemma plain_jsonify: "jsonify v = Written w \<Longrightarrow> plain w"
proof (induction v arbitrary: w)
  case (JToJSON v)
  then show ?case by (cases v) auto
next
  case (JArr vs)
  have "list_all plain (map element (map jsonify vs))"
    using JArr.IH by (auto simp: list_all_iff intro: plain_element)
  with JArr.prems show ?case by (auto split: if_splits)
next
  case (JObj kvs)
  have "\<forall>kv \<in> set kvs. \<forall>w. jsonify (snd kv) = Written w \<longrightarrow> plain w"
    using JObj.IH by (auto simp: snds.simps)
  then have "list_all (\<lambda>kv. plain (snd kv))
          (List.map_filter member (map (map_prod id jsonify) kvs))"
    by (induction kvs) (auto simp: List.map_filter_simps member_def split: written.splits)
  with JObj.prems show ?case by (auto split: if_splits)
qed auto

text \<open>The trees that the JSON copy leaves as they are, are the plain ones; and every
  document is plain.\<close>

lemma json_tree_plain: "plain_tree t \<Longrightarrow> json_tree t = Some t"
proof (induction t)
  case (DataT d)
  then show ?case by (auto simp: jsonify_plain split: option.splits)
next
  case (TaskT s tp u ts)
  then have "map json_tree ts = map Some ts" by (simp add: list_all_iff)
  then have "those (map json_tree ts) = Some ts" by (simp only: those_eq_Some)
  then show ?case by simp
qed

lemma json_tree_doc: "json_tree t = Some d \<Longrightarrow> plain_tree d"
proof (induction t arbitrary: d)
  case (DataT x)
  then show ?case by (auto split: option.splits written.splits dest: plain_jsonify)
next
  case (TaskT s tp u ts)
  from TaskT.prems obtain ds where
    ds: "those (map json_tree ts) = Some ds" and d: "d = TaskT s tp u ds"
    by auto
  from ds have "list_all2 (\<lambda>x y. json_tree x = Some y) ts ds"
    by (simp only: those_map_eq_Some)
  then have len: "length ts = length ds"
    and nth: "\<forall>i < length ts. json_tree (ts ! i) = Some (ds ! i)"
    by (simp_all add: list_all2_conv_all_nth)
  have "\<forall>i < length ds. plain_tree (ds ! i)"
    using TaskT.IH nth len by (metis nth_mem)
  then show ?case using d by (simp add: list_all_length)
qed

lemma json_tree_idem: "json_tree t = Some d \<Longrightarrow> json_tree d = Some d"
  by (rule json_tree_plain) (rule json_tree_doc)

lemma json_tree_fixed: "json_tree t = Some t \<longleftrightarrow> plain_tree t"
  using json_tree_plain json_tree_doc by blast

lemma deref_append: "a < length h \<Longrightarrow> deref (h @ xs) a = deref h a"
  by (simp add: deref_def nth_append)

lemma deref_lt: "deref h a = Some n \<Longrightarrow> a < length h"
  by (simp add: deref_def split: if_splits)

lemma shape_val_frame:
  "shape h T \<Longrightarrow> \<forall>a \<in> set (preorder T). deref h2 a = deref h a \<Longrightarrow>
   shape h2 T \<and> val h2 T = val h T"
proof (induction T)
  case (ANode a Ts)
  from ANode.prems(1) obtain n where n: "deref h a = Some n" by (auto split: option.splits)
  with ANode.prems(2) have n2: "deref h2 a = Some n" by simp
  show ?case
  proof (cases n)
    case (DataNode d)
    with n n2 ANode.prems(1) show ?thesis by simp
  next
    case (TaskNode s t u cs)
    with n ANode.prems(1) have cs: "cs = map root Ts" and l: "list_all (shape h) Ts" by simp_all
    have "\<forall>T \<in> set Ts. shape h2 T \<and> val h2 T = val h T"
    proof
      fix T assume T: "T \<in> set Ts"
      then have "\<forall>a \<in> set (preorder T). deref h2 a = deref h a"
        using ANode.prems(2) by auto
      with ANode.IH[OF T] l T show "shape h2 T \<and> val h2 T = val h T"
        by (simp add: list_all_iff)
    qed
    then have "list_all (shape h2) Ts" "map (val h2) Ts = map (val h) Ts"
      by (simp_all add: list_all_iff)
    with n n2 TaskNode cs show ?thesis by simp
  qed
qed

lemma preorder_lt: "shape h T \<Longrightarrow> a \<in> set (preorder T) \<Longrightarrow> a < length h"
  using shape_deref[of h T a] by (auto simp: deref_def split: if_splits)

lemma shape_unique: "shape h T \<Longrightarrow> shape h T' \<Longrightarrow> root T = root T' \<Longrightarrow> T = T'"
proof (induction T arbitrary: T')
  case (ANode a Ts)
  obtain Ts' where T': "T' = ANode a Ts'" using ANode.prems(3) by (cases T') simp
  from ANode.prems(1) obtain n where n: "deref h a = Some n" by (auto split: option.splits)
  show ?case
  proof (cases n)
    case (DataNode d)
    with n ANode.prems T' show ?thesis by simp
  next
    case (TaskNode s t u cs)
    with n ANode.prems T' have r: "map root Ts = map root Ts'"
      and l: "list_all (shape h) Ts" and l': "list_all (shape h) Ts'" by simp_all
    from r have len: "length Ts = length Ts'" by (metis length_map)
    have "\<forall>i < length Ts. Ts ! i = Ts' ! i"
    proof (intro allI impI)
      fix i assume i: "i < length Ts"
      then have "root (Ts ! i) = root (Ts' ! i)" using r len by (metis nth_map)
      moreover have "shape h (Ts ! i)" "shape h (Ts' ! i)"
        using l l' i len by (simp_all add: list_all_length)
      ultimately show "Ts ! i = Ts' ! i" using ANode.IH i by simp
    qed
    with len have "Ts = Ts'" by (simp add: list_eq_iff_nth_eq)
    with T' show ?thesis by simp
  qed
qed

lemma shape_subtree:
  "shape h T \<Longrightarrow> a \<in> set (preorder T) \<Longrightarrow> \<exists>T'. root T' = a \<and> shape h T' \<and> size T' \<le> size T"
proof (induction T)
  case (ANode b Ts)
  show ?case
  proof (cases "a = b")
    case True
    with ANode.prems(1) show ?thesis by (intro exI[of _ "ANode b Ts"]) simp
  next
    case False
    with ANode.prems(2) obtain T where T: "T \<in> set Ts" "a \<in> set (preorder T)" by auto
    with ANode.prems(1) have "shape h T"
      by (auto split: option.splits node.splits simp: list_all_iff)
    with ANode.IH T obtain T' where T': "root T' = a" "shape h T'" "size T' \<le> size T" by blast
    have "size T \<le> size_list size Ts" using T(1) by (simp add: size_list_estimation')
    with T' show ?thesis by (intro exI[of _ T']) simp
  qed
qed

lemma shape_acyclic:
  assumes "shape h (ANode a Ts)" "T \<in> set Ts"
  shows "a \<notin> set (preorder T)"
proof
  assume "a \<in> set (preorder T)"
  moreover from assms have sh: "shape h T"
    by (auto split: option.splits node.splits simp: list_all_iff)
  ultimately obtain T' where T': "root T' = a" "shape h T'" "size T' \<le> size T"
    using shape_subtree by blast
  have "T' = ANode a Ts" using shape_unique[OF T'(2) assms(1)] T'(1) by simp
  moreover have "size T \<le> size_list size Ts" using assms(2) by (simp add: size_list_estimation')
  ultimately show False using T'(3) by simp
qed

lemma those_map_Some: "those (map (\<lambda>x. Some (f x)) xs) = Some (map f xs)"
  by (induction xs) simp_all

lemma tree_at_shape:
  "shape h T \<Longrightarrow> set anc \<inter> set (preorder T) = {} \<Longrightarrow> tree_at h anc (root T) = Some (val h T)"
proof (induction T arbitrary: anc)
  case (ANode a Ts)
  from ANode.prems(2) have a: "a \<notin> set anc" by auto
  from ANode.prems(1) obtain n where n: "deref h a = Some n" by (auto split: option.splits)
  show ?case
  proof (cases n)
    case (DataNode d)
    with n a show ?thesis by (simp add: tree_at.simps)
  next
    case (TaskNode s t u cs)
    with n ANode.prems(1) have cs: "cs = map root Ts" and l: "list_all (shape h) Ts" by simp_all
    have "\<forall>T \<in> set Ts. tree_at h (a # anc) (root T) = Some (val h T)"
    proof
      fix T assume T: "T \<in> set Ts"
      have "a \<notin> set (preorder T)" using shape_acyclic[OF ANode.prems(1) T] .
      moreover have "set anc \<inter> set (preorder T) = {}" using ANode.prems(2) T by auto
      ultimately have "set (a # anc) \<inter> set (preorder T) = {}" by simp
      with ANode.IH[OF T] l T show "tree_at h (a # anc) (root T) = Some (val h T)"
        by (simp add: list_all_iff)
    qed
    then have "map (tree_at h (a # anc)) cs = map (\<lambda>T. Some (val h T)) Ts"
      by (simp add: cs)
    then have "those (map (tree_at h (a # anc)) cs) = Some (map (val h) Ts)"
      by (simp only: those_map_Some)
    with n TaskNode a show ?thesis by (simp add: tree_at.simps)
  qed
qed

lemma stringify_shape:
  "shape h T \<Longrightarrow>
   stringify h (root T) = (case json_tree (val h T) of None \<Rightarrow> Inl TypeError | Some doc \<Rightarrow> Inr doc)"
  using tree_at_shape[of h T "[]"] by (simp add: stringify_def)

lemma root_addr_tree: "root (addr_tree b t) = b"
  by (cases t) simp_all

text \<open>
  C8. The claim: \<^verbatim>\<open>snapshot()\<close> returns a deep, independent copy of the crawl tree, equal
  to it in structure and in value, that survives a serialize/deserialize round trip with no
  loss of kind, state, order or payload. The code copies through JSON, and a payload is
  any value: a payload that is not a JSON value (an array that holds \<^verbatim>\<open>undefined\<close>, say) is
  changed by the copy.
\<close>

theorem snapshot_changes_payload:
  "\<exists>st st'. run [Register ''root'' (\<lambda>u. Resolved [AddData (JArr [JUndefined])]),
                 Start [ArgStr ''root'', ArgStr ''a''], Run 0, Settle 0] (init plain_opts) = Some st \<and>
     crawlTree st = Some 0 \<and> shape (heap st) (ANode 0 [ANode 1 []]) \<and>
     val (heap st) (ANode 0 [ANode 1 []]) = TaskT Done ''root'' ''a'' [DataT (Some (JArr [JUndefined]))] \<and>
     snapshot st = Inr (Some 2, st') \<and> shape (heap st') (ANode 2 [ANode 3 []]) \<and>
     val (heap st') (ANode 2 [ANode 3 []]) = TaskT Done ''root'' ''a'' [DataT (Some (JArr [JNull]))]"
  by (simp add: perform_def register_def start_def and_then_def startWithEntry_def alloc_def
      addTask_def createTaskNode_def createDataNode_def task_begin_def task_settle_def
      remove_nth_def push_child_def set_state_def deref_def init_def plain_opts_def
      assign_opts_def defaultOpts_def snapshot_def stringify_def tree_at.simps parse_def
      element_def)

text \<open>Some payloads and what the JSON copy makes of them; and a run after which
  \<^verbatim>\<open>snapshot()\<close> throws.\<close>

lemma jsonify_examples:
  "jsonify (JArr [JNaN, JNegZero, JInfinity, JFunction ''f'', JUndefined])
     = Written (JArr [JNull, JNum 0, JNull, JNull, JNull])"
  "jsonify (JObj [(''a'', JSymbol ''s''), (''b'', JToJSON (JStr ''2020-01-01T00:00:00.000Z'')),
                  (''c'', JOther (JObj [])), (''d'', JUndefined)])
     = Written (JObj [(''b'', JStr ''2020-01-01T00:00:00.000Z''), (''c'', JObj [])])"
  "jsonify (JArr [JNum 1, JObj [(''a'', JBigInt 1)]]) = Throws"
  "jsonify (JToJSON (JToJSON (JNum 1))) = Written (JObj [])"
  "json_tree (TaskT Done ''t'' ''u'' [DataT (Some (JFunction ''f'')), DataT (Some JNaN)])
     = Some (TaskT Done ''t'' ''u'' [DataT None, DataT (Some JNull)])"
  by (simp_all add: element_def member_def List.map_filter_simps)

lemma snapshot_throws_example:
  "\<exists>st. run [Register ''root'' (\<lambda>u. Resolved [AddData (JBigInt 1)]),
              Start [ArgStr ''root'', ArgStr ''a''], Run 0, Settle 0] (init plain_opts) = Some st \<and>
     crawlTree st = Some 0 \<and> snapshot st = Inl TypeError"
  by (simp add: perform_def register_def start_def and_then_def startWithEntry_def alloc_def
      addTask_def createTaskNode_def createDataNode_def task_begin_def task_settle_def
      remove_nth_def push_child_def set_state_def deref_def init_def plain_opts_def
      assign_opts_def defaultOpts_def snapshot_def stringify_def tree_at.simps)

text \<open>
  The snapshot of a stored tree: a \<^verbatim>\<open>TypeError\<close> when the tree has no document, and
  otherwise fresh objects appended to the store, holding the document.
\<close>

lemma snapshot_shape:
  assumes "crawlTree st = Some (root T)" "shape (heap st) T"
  shows "case json_tree (val (heap st) T) of
           None \<Rightarrow> snapshot st = Inl TypeError \<and> \<not> plain_tree (val (heap st) T)
         | Some doc \<Rightarrow>
             (\<exists>h' T'. snapshot st = Inr (Some (root T'), st\<lparr>heap := h'\<rparr>) \<and>
                h' = heap st @ objects (length (heap st)) doc \<and>
                shape h' T \<and> val h' T = val (heap st) T \<and>
                shape h' T' \<and> val h' T' = doc \<and>
                outline (val h' T') = outline (val (heap st) T) \<and>
                plain_tree (val h' T') \<and>
                (val h' T' = val (heap st) T \<longleftrightarrow> plain_tree (val (heap st) T)) \<and>
                set (preorder T') \<inter> set (preorder T) = {} \<and>
                (\<forall>h2. (\<forall>a \<in> set (preorder T'). deref h2 a = deref h' a) \<longrightarrow>
                      shape h2 T' \<and> val h2 T' = val h' T') \<and>
                stringify h' (root T') = Inr (val h' T') \<and>
                (\<forall>h3. val (snd (parse (val h' T') h3))
                        (addr_tree (fst (parse (val h' T') h3)) (val h' T'))
                      = val h' T'))"
proof (cases "json_tree (val (heap st) T)")
  case None
  moreover have "snapshot st = Inl TypeError"
    using assms stringify_shape[OF assms(2)] None by (simp add: snapshot_def)
  moreover have "\<not> plain_tree (val (heap st) T)"
    using None json_tree_plain[of "val (heap st) T"] by auto
  ultimately show ?thesis by simp
next
  case (Some doc)
  let ?h = "heap st"
  let ?h' = "?h @ objects (length ?h) doc"
  let ?T' = "addr_tree (length ?h) doc"
  have snap: "snapshot st = Inr (Some (root ?T'), st\<lparr>heap := ?h'\<rparr>)"
    using assms stringify_shape[OF assms(2)] Some
    by (simp add: snapshot_def parse_def root_addr_tree)
  have old: "\<forall>a \<in> set (preorder T). deref ?h' a = deref ?h a"
    using preorder_lt[OF assms(2)] by (simp add: deref_append)
  have T: "shape ?h' T \<and> val ?h' T = val ?h T"
    using shape_val_frame[OF assms(2) old] .
  have T': "shape ?h' ?T' \<and> val ?h' ?T' = doc"
    using shape_val_objects(1)[of ?h "length ?h" doc "[]"] by simp
  have ol: "outline (val ?h' ?T') = outline (val ?h T)"
    using T' json_tree_outline[OF Some] by simp
  have pd: "plain_tree (val ?h' ?T')"
    using T' json_tree_doc[OF Some] by simp
  have pl: "val ?h' ?T' = val ?h T \<longleftrightarrow> plain_tree (val ?h T)"
    using T' Some json_tree_fixed[of "val ?h T"] by auto
  have dis: "set (preorder ?T') \<inter> set (preorder T) = {}"
    using preorder_lt[OF assms(2)] by (fastforce simp: preorder_addr_tree)
  have ind: "\<forall>h2. (\<forall>a \<in> set (preorder ?T'). deref h2 a = deref ?h' a) \<longrightarrow>
                 shape h2 ?T' \<and> val h2 ?T' = val ?h' ?T'"
    using shape_val_frame[of ?h' ?T'] T' by blast
  have str: "stringify ?h' (root ?T') = Inr (val ?h' ?T')"
    using stringify_shape[of ?h' ?T'] T' json_tree_idem[OF Some] by simp
  have rt: "\<forall>h3. val (snd (parse (val ?h' ?T') h3)) (addr_tree (fst (parse (val ?h' ?T') h3)) (val ?h' ?T'))
                 = val ?h' ?T'"
    using shape_val_objects(1)[of _ _ "val ?h' ?T'" "[]"] by (simp add: parse_def)
  from snap T T' ol pd pl dis ind str rt
  have "\<exists>h' T'. snapshot st = Inr (Some (root T'), st\<lparr>heap := h'\<rparr>) \<and>
                h' = heap st @ objects (length (heap st)) doc \<and>
                shape h' T \<and> val h' T = val (heap st) T \<and>
                shape h' T' \<and> val h' T' = doc \<and>
                outline (val h' T') = outline (val (heap st) T) \<and>
                plain_tree (val h' T') \<and>
                (val h' T' = val (heap st) T \<longleftrightarrow> plain_tree (val (heap st) T)) \<and>
                set (preorder T') \<inter> set (preorder T) = {} \<and>
                (\<forall>h2. (\<forall>a \<in> set (preorder T'). deref h2 a = deref h' a) \<longrightarrow>
                      shape h2 T' \<and> val h2 T' = val h' T') \<and>
                stringify h' (root T') = Inr (val h' T') \<and>
                (\<forall>h3. val (snd (parse (val h' T') h3))
                        (addr_tree (fst (parse (val h' T') h3)) (val h' T'))
                      = val h' T')"
    by blast
  with Some show ?thesis by simp
qed

lemma snapshot_example:
  "\<exists>h' T'. snapshot ((init plain_opts)\<lparr>heap := example_heap, crawlTree := Some 0\<rparr>)
             = Inr (Some (root T'),
                    (init plain_opts)\<lparr>heap := example_heap, crawlTree := Some 0\<rparr>\<lparr>heap := h'\<rparr>) \<and>
     val h' T' = val (heap ((init plain_opts)\<lparr>heap := example_heap, crawlTree := Some 0\<rparr>))
                   example_tree \<and>
     set (preorder T') \<inter> set (preorder example_tree) = {}"
proof -
  let ?st = "(init plain_opts)\<lparr>heap := example_heap, crawlTree := Some 0\<rparr>"
  have c: "crawlTree ?st = Some (root example_tree)"
    by (simp add: example_tree_def)
  have s: "shape (heap ?st) example_tree"
    by (simp add: example_tree_def example_heap_def deref_def)
  have p: "plain_tree (val (heap ?st) example_tree)"
    by (simp add: example_tree_def example_heap_def deref_def)
  then have j: "json_tree (val (heap ?st) example_tree) = Some (val (heap ?st) example_tree)"
    by (rule json_tree_plain)
  from snapshot_shape[OF c s] j obtain h' T' where
    "snapshot ?st = Inr (Some (root T'), ?st\<lparr>heap := h'\<rparr>)"
    "val h' T' = val (heap ?st) example_tree \<longleftrightarrow> plain_tree (val (heap ?st) example_tree)"
    "set (preorder T') \<inter> set (preorder example_tree) = {}"
    by auto
  with p show ?thesis by blast
qed

section \<open>The commit in closed form, and the invariant of the children\<close>

lemma upd_app: "p < length h \<Longrightarrow> (h[p := X] @ ys)[p := Y] = (h @ ys)[p := Y]"
  by (simp add: list_update_append1)

lemma push_child_new:
  "deref h p = Some (TaskNode s t u cs) \<Longrightarrow>
   push_child (h @ [n]) p c = (h @ [n])[p := TaskNode s t u (cs @ [c])]"
  by (simp add: push_child_def deref_append deref_lt)

lemma deref_update_same:
  "p < length h \<Longrightarrow> deref (h[p := n]) p = Some n"
  by (simp add: deref_def)

lemma exec_result:
  "deref (heap st) p = Some (TaskNode s t u cs) \<Longrightarrow>
   exec (Some p) q st =
     Inr (st\<lparr>heap := (heap st @ produced (s_distinct (options st)) (urlSet st) q)
                   [p := TaskNode s t u (cs @ [length (heap st)..<length (heap st)
                          + length (produced (s_distinct (options st)) (urlSet st) q)])],
             urlSet := urlSet st \<union> set (urls_of (produced (s_distinct (options st)) (urlSet st) q)),
             taskQueue := taskQueue st
                @ tasks_of (length (heap st)) (produced (s_distinct (options st)) (urlSet st) q),
             timers := timers st @ data_events q,
             busy := (busy st \<or>
                tasks_of (length (heap st)) (produced (s_distinct (options st)) (urlSet st) q) \<noteq> [])\<rparr>)"
proof (induction q arbitrary: st cs)
  case Nil
  then have "(heap st)[p := TaskNode s t u cs] = heap st"
    by (simp add: deref_def list_update_same_conv split: if_splits)
  then show ?case by simp
next
  case (Cons c q)
  let ?h = "heap st" and ?d = "s_distinct (options st)"
  from Cons.prems have p: "p < length ?h" by (rule deref_lt)
  show ?case
  proof (cases c)
    case (AddData d)
    let ?st1 = "st\<lparr>heap := (?h @ [DataNode (Some d)])[p := TaskNode s t u (cs @ [length ?h])],
                    timers := timers st @ [DataEv d]\<rparr>"
    let ?N = "produced ?d (urlSet st) q"
    have d1: "deref (heap ?st1) p = Some (TaskNode s t u (cs @ [length ?h]))"
      using p by (simp add: deref_def)
    have e: "exec (Some p) (c # q) st = exec (Some p) q ?st1"
      using AddData push_child_new[OF Cons.prems] by (simp add: alloc_def createDataNode_def)
    have u: "[length ?h] @ [Suc (length ?h)..<Suc (length ?h) + length ?N]
             = [length ?h..<length ?h + Suc (length ?N)]"
      by (simp add: upt_conv_Cons del: upt_Suc)
    have h: "(heap ?st1 @ ?N)[p := TaskNode s t u ((cs @ [length ?h]) @ [length (heap ?st1)..<length (heap ?st1) + length ?N])]
        = (?h @ DataNode (Some d) # ?N)[p := TaskNode s t u (cs @ [length ?h..<length ?h + Suc (length ?N)])]"
      using p u upd_app[of p "?h @ [DataNode (Some d)]"] by (simp del: upt_Suc)
    show ?thesis
      unfolding e Cons.IH[OF d1]
      using AddData h by (simp del: upt_Suc)
  next
    case (AddTask t' u')
    show ?thesis
    proof (cases "?d \<and> u' \<in> urlSet st")
      case True
      then have "exec (Some p) (c # q) st = exec (Some p) q st" using AddTask by simp
      then show ?thesis using Cons.IH[OF Cons.prems] True AddTask by simp
    next
      case False
      let ?n = "TaskNode Waiting t' u' []"
      let ?tk = "\<lparr>task_node = length ?h, task_template = t', task_url = u'\<rparr>"
      let ?st1 = "st\<lparr>urlSet := insert u' (urlSet st),
                      heap := (?h @ [?n])[p := TaskNode s t u (cs @ [length ?h])],
                      taskQueue := taskQueue st @ [?tk], busy := True\<rparr>"
      let ?N = "produced ?d (insert u' (urlSet st)) q"
      have d1: "deref (heap ?st1) p = Some (TaskNode s t u (cs @ [length ?h]))"
        using p by (simp add: deref_def)
      have e: "exec (Some p) (c # q) st = exec (Some p) q ?st1"
        using AddTask False push_child_new[OF Cons.prems]
        by (auto simp add: alloc_def createTaskNode_def addTask_def)
      have N: "produced ?d (urlSet st) (c # q) = ?n # ?N"
        using AddTask False by auto
      have u: "[length ?h] @ [Suc (length ?h)..<Suc (length ?h) + length ?N]
               = [length ?h..<length ?h + Suc (length ?N)]"
        by (simp add: upt_conv_Cons del: upt_Suc)
      have h: "(heap ?st1 @ ?N)[p := TaskNode s t u ((cs @ [length ?h]) @ [length (heap ?st1)..<length (heap ?st1) + length ?N])]
          = (?h @ ?n # ?N)[p := TaskNode s t u (cs @ [length ?h..<length ?h + Suc (length ?N)])]"
        using p u upd_app[of p "?h @ [?n]"] by (simp del: upt_Suc)
      show ?thesis
        unfolding e Cons.IH[OF d1] N
        using h AddTask by (simp del: upt_Suc)
    qed
  qed
qed


lemma fresh_ok_node_ok: "fresh_ok n \<Longrightarrow> node_ok n"
  by (cases n) auto

lemma tasks_of_bounds:
  "tk \<in> set (tasks_of k os) \<Longrightarrow> k \<le> task_node tk \<and> task_node tk < k + length os"
  by (induction k os rule: tasks_of.induct) (auto split: if_splits)

lemma distinct_tasks_of: "distinct (map task_node (tasks_of k os))"
proof (induction k os rule: tasks_of.induct)
  case (3 k s t u cs os)
  have "\<forall>tk \<in> set (tasks_of (Suc k) os). task_node tk \<noteq> k"
    using tasks_of_bounds[of _ "Suc k" os] by fastforce
  with 3 show ?case by auto
qed simp_all

lemma tasks_of_waiting:
  "list_all fresh_ok os \<Longrightarrow> tk \<in> set (tasks_of k os) \<Longrightarrow>
   \<exists>t u. os ! (task_node tk - k) = TaskNode Waiting t u []"
proof (induction k os rule: tasks_of.induct)
  case (1 k)
  then show ?case by simp
next
  case (2 k d os)
  then have "tk \<in> set (tasks_of (Suc k) os)" by simp
  moreover from this have "Suc k \<le> task_node tk" using tasks_of_bounds by blast
  ultimately show ?case using 2 by (auto simp: Suc_diff_le)
next
  case (3 k s t u cs os)
  show ?case
  proof (cases "task_node tk = k")
    case True
    have "\<forall>tk \<in> set (tasks_of (Suc k) os). task_node tk \<noteq> k"
      using tasks_of_bounds[of _ "Suc k" os] by fastforce
    with True 3(3) have "s \<noteq> Done" by (auto split: if_splits)
    with 3(2) True show ?thesis by simp
  next
    case False
    with 3(3) have in': "tk \<in> set (tasks_of (Suc k) os)" by (auto split: if_splits)
    then have "Suc k \<le> task_node tk" using tasks_of_bounds by blast
    with 3 in' show ?thesis by (auto simp: Suc_diff_le)
  qed
qed

lemma waiting_at_lt: "waiting_at h a \<Longrightarrow> a < length h"
  by (auto simp: waiting_at_def dest: deref_lt)

lemma deref_append_Some: "deref h a = Some n \<Longrightarrow> deref (h @ N) a = Some n"
  by (auto simp: deref_def nth_append split: if_splits)

lemma waiting_at_append: "waiting_at h a \<Longrightarrow> waiting_at (h @ N) a"
  by (auto simp: waiting_at_def dest: deref_append_Some)

lemma deref_new: "i < length N \<Longrightarrow> deref (h @ N) (length h + i) = Some (N ! i)"
  by (simp add: deref_def nth_append)

lemma ok_append: "ok h P \<Longrightarrow> list_all node_ok N \<Longrightarrow> ok (h @ N) P"
  by (auto simp: ok_def list_all_iff intro: waiting_at_append)

lemma ok_subset: "ok h P \<Longrightarrow> distinct P' \<Longrightarrow> set P' \<subseteq> set P \<Longrightarrow> ok h P'"
  by (auto simp: ok_def list_all_iff)

lemma ok_extend:
  assumes "ok h (A @ B)" "list_all fresh_ok N"
  shows "ok (h @ N) (A @ map task_node (tasks_of (length h) N) @ B)"
proof -
  let ?T = "map task_node (tasks_of (length h) N)"
  have old: "a < length h" if "a \<in> set A \<union> set B" for a
    using assms(1) that by (auto simp: ok_def list_all_iff dest: waiting_at_lt)
  have new: "length h \<le> a" if "a \<in> set ?T" for a
    using that tasks_of_bounds[of _ "length h" N] by auto
  have disj: "set A \<inter> set ?T = {}" "set ?T \<inter> set B = {}"
  proof -
    show "set A \<inter> set ?T = {}"
    proof (rule ccontr)
      assume "set A \<inter> set ?T \<noteq> {}"
      then obtain a where "a \<in> set A" "a \<in> set ?T" by blast
      with old[of a] new[of a] show False by simp
    qed
    show "set ?T \<inter> set B = {}"
    proof (rule ccontr)
      assume "set ?T \<inter> set B \<noteq> {}"
      then obtain a where "a \<in> set B" "a \<in> set ?T" by blast
      with old[of a] new[of a] show False by simp
    qed
  qed
  have dAB: "distinct A" "distinct B" "set A \<inter> set B = {}"
    using assms(1) by (simp_all add: ok_def)
  have dT: "distinct ?T" by (rule distinct_tasks_of)
  have "set A \<inter> (set ?T \<union> set B) = {}"
    using dAB(3) disj(1) by blast
  then have d: "distinct (A @ ?T @ B)"
    using dAB dT disj by simp
  have n: "list_all node_ok (h @ N)"
    using assms by (auto simp: ok_def list_all_iff intro: fresh_ok_node_ok)
  have wT: "list_all (waiting_at (h @ N)) ?T"
  proof -
    have "waiting_at (h @ N) (task_node tk)" if tk: "tk \<in> set (tasks_of (length h) N)" for tk
    proof -
      define i where "i = task_node tk - length h"
      from tasks_of_bounds[OF tk] have i: "task_node tk = length h + i" "i < length N"
        by (auto simp: i_def)
      from tasks_of_waiting[OF assms(2) tk] obtain t u where "N ! i = TaskNode Waiting t u []"
        by (auto simp: i_def)
      with i deref_new[of i N h] show ?thesis by (auto simp: waiting_at_def)
    qed
    then show ?thesis by (simp add: list_all_iff)
  qed
  have wA: "list_all (waiting_at (h @ N)) A" and wB: "list_all (waiting_at (h @ N)) B"
    using assms(1) by (auto simp: ok_def list_all_iff intro: waiting_at_append)
  from d n wT wA wB show ?thesis by (simp add: ok_def)
qed

lemma list_all_update: "list_all P xs \<Longrightarrow> P x \<Longrightarrow> list_all P (xs[i := x])"
  using set_update_subset_insert[of xs i x] by (auto simp: list_all_iff)

lemma deref_update_other: "a \<noteq> p \<Longrightarrow> deref (h[p := n]) a = deref h a"
  by (simp add: deref_def)

lemma ok_update:
  assumes "ok h P" "p \<notin> set P" "node_ok X"
  shows "ok (h[p := X]) P"
proof -
  have "list_all node_ok (h[p := X])"
    using assms by (simp add: ok_def list_all_update)
  moreover have "waiting_at (h[p := X]) a" if "a \<in> set P" for a
  proof -
    from that assms(2) have "a \<noteq> p" by blast
    moreover from that assms(1) have "waiting_at h a" by (simp add: ok_def list_all_iff)
    ultimately show ?thesis by (simp add: waiting_at_def deref_update_other)
  qed
  ultimately show ?thesis using assms(1) by (simp add: ok_def list_all_iff)
qed

lemma frozen_refl [simp]: "frozen h h"
  by (simp add: frozen_def)

lemma frozen_trans: "frozen h h' \<Longrightarrow> frozen h' h'' \<Longrightarrow> frozen h h''"
  by (simp add: frozen_def)

lemma frozen_append: "frozen h (h @ N)"
  by (auto simp: frozen_def dest: deref_append_Some)

lemma frozen_update:
  assumes "waiting_at h p"
  shows "frozen h (h[p := X])"
  unfolding frozen_def
proof (intro allI impI)
  fix a t u cs
  assume d: "deref h a = Some (TaskNode Done t u cs)"
  with assms have "a \<noteq> p" by (auto simp: waiting_at_def)
  with d show "deref (h[p := X]) a = Some (TaskNode Done t u cs)"
    by (simp add: deref_update_other)
qed

lemma frozen_update_new: "waiting_at h p \<Longrightarrow> frozen h ((h @ N)[p := X])"
  by (rule frozen_trans[OF frozen_append]) (rule frozen_update, rule waiting_at_append)


lemma produced_fresh: "list_all fresh_ok (produced dis seen q)"
  by (induction dis seen q rule: produced.induct) simp_all

lemma child_addrs_Nil: "(child_addrs b ts = []) = (ts = [])"
  by (cases ts) simp_all

lemma objects_node_ok:
  "children_ok t \<Longrightarrow> list_all node_ok (objects b t)"
  "list_all children_ok ts \<Longrightarrow> list_all node_ok (objects_list b ts)"
  by (induction b t and b ts rule: objects_objects_list.induct)
     (auto simp: child_addrs_Nil)

lemma objects_reset_fresh:
  "children_ok t \<Longrightarrow> list_all fresh_ok (objects b (reset_states t))"
  "list_all children_ok ts \<Longrightarrow> list_all fresh_ok (objects_list b (map reset_states ts))"
  by (induction b t and b ts rule: objects_objects_list.induct)
     (auto simp: child_addrs_Nil count_reset_states)

lemma children_ok_outline: "children_ok (outline t) = children_ok t"
  by (induction t) (auto simp: list_all_iff)

lemma children_ok_json_tree: "json_tree t = Some d \<Longrightarrow> children_ok d = children_ok t"
  using children_ok_outline[of d] children_ok_outline[of t] by (simp add: json_tree_outline)

lemma redispatch_reset:
  "redispatch b (reset_states t) = redispatch b t"
  "redispatch_list b (map reset_states ts) = redispatch_list b ts"
  by (induction b t and b ts rule: redispatch_redispatch_list.induct)
     (simp_all add: count_reset_states)

lemma those_Some_nth:
  "those xs = Some ys \<Longrightarrow> length ys = length xs \<and> (\<forall>i < length xs. xs ! i = Some (ys ! i))"
proof (induction xs arbitrary: ys)
  case Nil
  then show ?case by simp
next
  case (Cons x xs)
  then show ?case
    by (auto split: option.splits simp: nth_Cons split: nat.splits)
qed

lemma tree_at_children_ok:
  "list_all node_ok h \<Longrightarrow> tree_at h anc a = Some t \<Longrightarrow> children_ok t"
proof (induction h anc a arbitrary: t rule: tree_at.induct)
  case (1 h anc a)
  from "1.prems"(2) have a: "a \<notin> set anc"
    by (subst (asm) tree_at.simps) (simp split: if_splits)
  from "1.prems"(2) a obtain n where n: "deref h a = Some n"
    by (subst (asm) tree_at.simps) (simp split: option.splits)
  show ?case
  proof (cases n)
    case (DataNode d)
    with "1.prems"(2) a n show ?thesis
      by (subst (asm) tree_at.simps) auto
  next
    case (TaskNode s tp u cs)
    with "1.prems"(2) a n obtain ts where
      ts: "those (map (tree_at h (a # anc)) cs) = Some ts" and t: "t = TaskT s tp u ts"
      by (subst (asm) tree_at.simps) auto
    from those_Some_nth[OF ts] have len: "length ts = length cs"
      and nth: "\<forall>i < length cs. tree_at h (a # anc) (cs ! i) = Some (ts ! i)" by simp_all
    have "children_ok (ts ! i)" if "i < length ts" for i
      using "1.IH"[OF a n TaskNode _ "1.prems"(1), of "cs ! i" "ts ! i"] that len nth by simp
    then have l: "list_all children_ok ts" by (simp add: list_all_length)
    from n have "a < length h" by (rule deref_lt)
    with n "1.prems"(1) have "node_ok n" by (auto simp: deref_def list_all_length)
    with TaskNode len have "s = Done \<or> ts = []" by auto
    with l t show ?thesis by simp
  qed
qed

lemma ok_take_out: "ok h (A @ p # B) \<Longrightarrow> ok h (A @ B) \<and> p \<notin> set (A @ B) \<and> waiting_at h p"
  by (auto simp: ok_def)

lemma ok_snoc: "ok h P \<Longrightarrow> p \<notin> set P \<Longrightarrow> waiting_at h p \<Longrightarrow> ok h (P @ [p])"
  by (auto simp: ok_def)

lemma map_remove_nth:
  "i < length xs \<Longrightarrow> map f xs = map f (take i xs) @ f (xs ! i) # map f (drop (Suc i) xs)"
  by (metis id_take_nth_drop list.simps(9) map_append)

lemma pending_remove_queue:
  assumes "i < length (taskQueue st)" "inv1 st"
  shows "ok (heap st) (pending (st\<lparr>taskQueue := remove_nth i (taskQueue st)\<rparr>)) \<and>
         task_node (taskQueue st ! i) \<notin> set (pending (st\<lparr>taskQueue := remove_nth i (taskQueue st)\<rparr>)) \<and>
         waiting_at (heap st) (task_node (taskQueue st ! i))"
proof -
  let ?A = "map task_node (take i (taskQueue st))"
  let ?B = "map task_node (drop (Suc i) (taskQueue st)) @ map (\<lambda>x. task_node (fst x)) (inflight st)"
  have "pending st = ?A @ task_node (taskQueue st ! i) # ?B"
    using map_remove_nth[OF assms(1), of task_node] by (simp add: pending_def)
  moreover have "pending (st\<lparr>taskQueue := remove_nth i (taskQueue st)\<rparr>) = ?A @ ?B"
    by (simp add: pending_def remove_nth_def)
  ultimately show ?thesis using assms(2) ok_take_out[of "heap st" ?A _ ?B]
    by (simp add: inv1_def)
qed

lemma pending_remove_inflight:
  assumes "i < length (inflight st)" "inv1 st"
  shows "ok (heap st) (pending (st\<lparr>inflight := remove_nth i (inflight st)\<rparr>)) \<and>
         task_node (fst (inflight st ! i)) \<notin> set (pending (st\<lparr>inflight := remove_nth i (inflight st)\<rparr>)) \<and>
         waiting_at (heap st) (task_node (fst (inflight st ! i)))"
proof -
  let ?A = "map task_node (taskQueue st) @ map (\<lambda>x. task_node (fst x)) (take i (inflight st))"
  let ?B = "map (\<lambda>x. task_node (fst x)) (drop (Suc i) (inflight st))"
  have "pending st = ?A @ task_node (fst (inflight st ! i)) # ?B"
    using map_remove_nth[OF assms(1), of "\<lambda>x. task_node (fst x)"] by (simp add: pending_def)
  moreover have "pending (st\<lparr>inflight := remove_nth i (inflight st)\<rparr>) = ?A @ ?B"
    by (simp add: pending_def remove_nth_def)
  ultimately show ?thesis using assms(2) ok_take_out[of "heap st" ?A _ ?B]
    by (simp add: inv1_def)
qed

lemma set_state_waiting:
  "deref h p = Some (TaskNode s t u cs) \<Longrightarrow> set_state h p s' = h[p := TaskNode s' t u cs]"
  by (simp add: set_state_def)

lemma catch_fail_inv1:
  assumes "ok (heap st) (pending st)" "task_node tk \<notin> set (pending st)"
    "waiting_at (heap st) (task_node tk)"
  shows "inv1 (catch_fail tk e st) \<and> frozen (heap st) (heap (catch_fail tk e st))"
proof -
  from assms(3) obtain t u where d: "deref (heap st) (task_node tk) = Some (TaskNode Waiting t u [])"
    by (auto simp: waiting_at_def)
  have h: "heap (catch_fail tk e st) = (heap st)[task_node tk := TaskNode Fail t u []]"
    by (simp add: catch_fail_def set_state_waiting[OF d])
  have p: "pending (catch_fail tk e st) = pending st"
    by (simp add: catch_fail_def pending_def)
  show ?thesis
    unfolding inv1_def h p
    using ok_update[OF assms(1,2), of "TaskNode Fail t u []"] frozen_update[OF assms(3)]
    by simp
qed

lemma task_begin_inv1:
  assumes "ok (heap st) (pending st)" "task_node tk \<notin> set (pending st)"
    "waiting_at (heap st) (task_node tk)"
  shows "inv1 (task_begin tk st) \<and> frozen (heap st) (heap (task_begin tk st))"
proof (cases "stopped st")
  case True
  with assms(1) show ?thesis by (simp add: task_begin_def inv1_def)
next
  case False
  show ?thesis
  proof (cases "templates st (task_template tk)")
    case None
    with False catch_fail_inv1[OF assms] show ?thesis by (simp add: task_begin_def)
  next
    case (Some f)
    have "pending (st\<lparr>inflight := inflight st @ [(tk, f)]\<rparr>) = pending st @ [task_node tk]"
      by (simp add: pending_def)
    with False Some ok_snoc[OF assms] show ?thesis by (simp add: task_begin_def inv1_def)
  qed
qed

lemma task_settle_resolved:
  assumes "deref (heap st) (task_node tk) = Some (TaskNode Waiting t u [])"
  shows "task_settle tk (Resolved q) st =
     st\<lparr>heap := (heap st @ produced (s_distinct (options st)) (urlSet st) q)
                   [task_node tk := TaskNode Done t u [length (heap st)..<length (heap st)
                          + length (produced (s_distinct (options st)) (urlSet st) q)]],
        urlSet := urlSet st \<union> set (urls_of (produced (s_distinct (options st)) (urlSet st) q)),
        taskQueue := taskQueue st
           @ tasks_of (length (heap st)) (produced (s_distinct (options st)) (urlSet st) q),
        timers := timers st @ data_events q,
        busy := (busy st \<or>
           tasks_of (length (heap st)) (produced (s_distinct (options st)) (urlSet st) q) \<noteq> [])\<rparr>"
proof -
  from assms have "task_node tk < length (heap st)" by (rule deref_lt)
  then show ?thesis
    by (simp add: task_settle_def exec_result[OF assms] set_state_def deref_def)
qed

lemma task_settle_inv1:
  assumes "ok (heap st) (pending st)" "task_node tk \<notin> set (pending st)"
    "waiting_at (heap st) (task_node tk)"
  shows "inv1 (task_settle tk out st) \<and> frozen (heap st) (heap (task_settle tk out st))"
proof (cases out)
  case (Rejected q e)
  with catch_fail_inv1[OF assms] show ?thesis by (simp add: task_settle_def)
next
  case (Resolved q)
  from assms(3) obtain t u where d: "deref (heap st) (task_node tk) = Some (TaskNode Waiting t u [])"
    by (auto simp: waiting_at_def)
  let ?N = "produced (s_distinct (options st)) (urlSet st) q"
  let ?T = "map task_node (tasks_of (length (heap st)) ?N)"
  let ?A = "map task_node (taskQueue st)" and ?B = "map (\<lambda>x. task_node (fst x)) (inflight st)"
  let ?X = "TaskNode Done t u [length (heap st)..<length (heap st) + length ?N]"
  have e: "ok (heap st @ ?N) (?A @ ?T @ ?B)"
    using ok_extend[of "heap st" ?A ?B ?N] assms(1) produced_fresh by (simp add: pending_def)
  have "task_node tk \<notin> set ?T"
    using tasks_of_bounds[of _ "length (heap st)" ?N] deref_lt[OF d] by fastforce
  with assms(2) have n: "task_node tk \<notin> set (?A @ ?T @ ?B)" by (simp add: pending_def)
  have "ok ((heap st @ ?N)[task_node tk := ?X]) (?A @ ?T @ ?B)"
    by (rule ok_update[OF e n]) simp
  moreover have "frozen (heap st) ((heap st @ ?N)[task_node tk := ?X])"
    by (rule frozen_update_new[OF assms(3)])
  ultimately show ?thesis
    unfolding Resolved task_settle_resolved[OF d] by (simp add: inv1_def pending_def)
qed

section \<open>Children are committed all at once\<close>

lemma start_cases:
  assumes "start args st = Some (Inr st')"
  shows "(\<exists>snap doc st0. args = [ArgNode snap] \<and> json_tree snap = Some doc \<and>
            startWithSnapshot snap st = Some (Inr st0) \<and> st' = st0\<lparr>started := True\<rparr>)
       \<or> (\<exists>t u st0. args = [ArgStr t, ArgStr u] \<and> startWithEntry t u st = Inr st0 \<and>
            st' = st0\<lparr>started := True\<rparr>)
       \<or> (length args \<noteq> 1 \<and> length args \<noteq> 2 \<and> st' = st\<lparr>started := True\<rparr>)"
proof -
  from assms have ns: "\<not> started st" by (auto simp: start_def split: if_splits)
  consider (one) a where "args = [a]" | (two) a b where "args = [a, b]"
    | (other) "length args \<noteq> 1" "length args \<noteq> 2"
    by (cases args; cases "tl args"; cases "tl (tl args)") auto
  then show ?thesis
  proof cases
    case one
    show ?thesis
    proof (cases a)
      case (ArgNode snap)
      show ?thesis
      proof (cases "json_tree snap")
        case None
        with assms ns one ArgNode show ?thesis
          by (simp add: start_def and_then_def startWithSnapshot_throws)
      next
        case (Some doc)
        with assms ns one ArgNode show ?thesis
          by (auto simp: start_def and_then_def split: option.splits sum.splits)
      qed
    next
      case (ArgStr x)
      with assms ns one show ?thesis by (simp add: start_def and_then_def)
    qed
  next
    case two
    with assms ns show ?thesis
      by (cases a; cases b) (auto simp: start_def and_then_def split: option.splits sum.splits)
  next
    case other
    with assms ns show ?thesis by (auto simp: start_def and_then_def)
  qed
qed

lemma startWithEntry_result:
  "startWithEntry t u st =
     Inr (if s_distinct (options st) \<and> u \<in> urlSet st then st
          else st\<lparr>urlSet := insert u (urlSet st),
                  heap := heap st @ [TaskNode Waiting t u []],
                  crawlTree := Some (length (heap st)),
                  taskQueue := taskQueue st
                     @ [\<lparr>task_node = length (heap st), task_template = t, task_url = u\<rparr>],
                  busy := True\<rparr>)"
  by (auto simp: startWithEntry_def alloc_def createTaskNode_def addTask_def)

lemma snapshot_result:
  assumes "snapshot st = Inr (a, st')"
  shows "st' = st \<or> (\<exists>r t doc. crawlTree st = Some r \<and> tree_at (heap st) [] r = Some t \<and>
           json_tree t = Some doc \<and>
           st' = st\<lparr>heap := heap st @ objects (length (heap st)) doc\<rparr>)"
  using assms
  by (auto simp: snapshot_def stringify_def parse_def split: option.splits)

lemma init_inv1: "inv1 (init opts)"
  by (simp add: inv1_def ok_def pending_def init_def)

lemma onDone_heap [simp]: "heap (onDone st) = heap st"
  by (simp add: onDone_def)

lemma onDone_pending [simp]: "pending (onDone st) = pending st"
  by (simp add: onDone_def pending_def)

lemma start_inv1:
  assumes "inv1 st" "list_all arg_ok args" "start args st = Some (Inr st')"
  shows "inv1 st' \<and> frozen (heap st) (heap st')"
proof -
  let ?A = "map task_node (taskQueue st)" and ?B = "map (\<lambda>x. task_node (fst x)) (inflight st)"
  let ?b = "length (heap st)"
  from assms(1) have ok0: "ok (heap st) (?A @ ?B)" by (simp add: inv1_def pending_def)
  from start_cases[OF assms(3)] show ?thesis
  proof (elim disjE exE conjE)
    fix snap doc st0
    assume a: "args = [ArgNode snap]" and r: "startWithSnapshot snap st = Some (Inr st0)"
      and s: "st' = st0\<lparr>started := True\<rparr>" and j: "json_tree snap = Some doc"
    let ?N = "objects ?b (reset_states doc)"
    from a assms(2) have "children_ok doc" by (simp add: children_ok_json_tree[OF j])
    then have f: "list_all fresh_ok ?N" by (rule objects_reset_fresh)
    have t: "tasks_of ?b ?N = redispatch ?b doc"
      by (simp add: objects_tasks redispatch_reset)
    from r have h: "heap st' = heap st @ ?N"
      and p: "pending st' = ?A @ map task_node (redispatch ?b doc) @ ?B"
      unfolding s startWithSnapshot_doc[OF j] by (auto simp: pending_def onDone_def)
    from ok_extend[OF ok0 f] show ?thesis
      unfolding inv1_def h p t by (simp add: frozen_append)
  next
    fix t u st0
    assume a: "args = [ArgStr t, ArgStr u]" and r: "startWithEntry t u st = Inr st0"
      and s: "st' = st0\<lparr>started := True\<rparr>"
    show ?thesis
    proof (cases "s_distinct (options st) \<and> u \<in> urlSet st")
      case True
      with r s assms(1) show ?thesis
        by (auto simp: startWithEntry_result inv1_def pending_def)
    next
      case False
      let ?N = "[TaskNode Waiting t u []]"
      from False r s have h: "heap st' = heap st @ ?N"
        and p: "pending st' = ?A @ map task_node (tasks_of ?b ?N) @ ?B"
        by (auto simp: startWithEntry_result pending_def)
      from ok_extend[OF ok0, of ?N] show ?thesis
        unfolding inv1_def h p by (simp add: frozen_append)
    qed
  next
    assume "st' = st\<lparr>started := True\<rparr>"
    with assms(1) show ?thesis by (simp add: inv1_def pending_def)
  qed
qed

lemma snapshot_inv1:
  assumes "inv1 st" "snapshot st = Inr (a, st')"
  shows "inv1 st' \<and> frozen (heap st) (heap st')"
  using snapshot_result[OF assms(2)]
proof (elim disjE exE conjE)
  assume "st' = st"
  with assms(1) show ?thesis by simp
next
  fix r t doc
  assume t: "tree_at (heap st) [] r = Some t" and j: "json_tree t = Some doc"
    and s: "st' = st\<lparr>heap := heap st @ objects (length (heap st)) doc\<rparr>"
  from assms(1) have "list_all node_ok (heap st)" by (simp add: inv1_def ok_def)
  from tree_at_children_ok[OF this t] have "children_ok doc"
    by (simp add: children_ok_json_tree[OF j])
  then have "list_all node_ok (objects (length (heap st)) doc)"
    by (rule objects_node_ok)
  with assms(1) show ?thesis
    unfolding s inv1_def by (simp add: pending_def ok_append frozen_append)
qed

lemma perform_inv1:
  assumes "inv1 st" "ok_action act" "perform act st = Some (Inr st')"
  shows "inv1 st' \<and> frozen (heap st) (heap st')"
proof (cases act)
  case (Register t f)
  with assms show ?thesis
    by (auto simp: perform_def register_def inv1_def pending_def split: if_splits)
next
  case (Start args)
  with assms start_inv1[of st args st'] show ?thesis by (simp add: perform_def)
next
  case Stop
  with assms show ?thesis by (auto simp: perform_def stop_def inv1_def pending_def)
next
  case Snapshot
  with assms(3) obtain a where "snapshot st = Inr (a, st')"
    by (cases "snapshot st") (auto simp: perform_def)
  with assms(1) show ?thesis by (rule snapshot_inv1)
next
  case (Run i)
  with assms(3) have i: "i < length (taskQueue st)"
    and s: "st' = task_begin (taskQueue st ! i) (st\<lparr>taskQueue := remove_nth i (taskQueue st)\<rparr>)"
    by (auto simp: perform_def split: if_splits)
  from pending_remove_queue[OF i assms(1)]
  show ?thesis unfolding s
    using task_begin_inv1[of "st\<lparr>taskQueue := remove_nth i (taskQueue st)\<rparr>" "taskQueue st ! i"]
    by simp
next
  case (Settle i)
  with assms(3) have i: "i < length (inflight st)"
    and s: "st' = task_settle (fst (inflight st ! i)) (snd (inflight st ! i) (task_url (fst (inflight st ! i))))
                    (st\<lparr>inflight := remove_nth i (inflight st)\<rparr>)"
    by (auto simp: perform_def split: if_splits prod.splits)
  from pending_remove_inflight[OF i assms(1)]
  show ?thesis unfolding s
    using task_settle_inv1[of "st\<lparr>inflight := remove_nth i (inflight st)\<rparr>" "fst (inflight st ! i)"]
    by simp
next
  case PoolEmpty
  with assms show ?thesis
    by (auto simp: perform_def inv1_def pending_def onDone_def split: if_splits)
next
  case Tick
  with assms show ?thesis
    by (auto simp: perform_def inv1_def pending_def split: if_splits list.splits)
qed

lemma run_inv1:
  "inv1 st \<Longrightarrow> list_all ok_action acts \<Longrightarrow> run acts st = Some st' \<Longrightarrow>
   inv1 st' \<and> frozen (heap st) (heap st')"
proof (induction acts arbitrary: st)
  case Nil
  then show ?case by simp
next
  case (Cons act acts)
  show ?case
  proof (cases "perform act st")
    case None
    with Cons.prems show ?thesis by simp
  next
    case (Some r)
    show ?thesis
    proof (cases r)
      case (Inl e)
      with Some Cons show ?thesis by simp
    next
      case (Inr st1)
      with Some Cons.prems perform_inv1[of st act st1]
      have 1: "inv1 st1" "frozen (heap st) (heap st1)" by simp_all
      from Inr Some Cons.prems have "run acts st1 = Some st'" by simp
      with Cons.IH[OF 1(1)] Cons.prems(2) have "inv1 st'" "frozen (heap st1) (heap st')"
        by simp_all
      with 1(2) show ?thesis by (blast intro: frozen_trans)
    qed
  qed
qed

text \<open>
  C1. In every state an instance can reach (between two turns of the event loop, which
  is where anything can be observed), a task node that is waiting or failed has no
  children. When the template of a suspended body resolves, the commit turns the node,
  waiting and childless until then, into a done node whose children are exactly the nodes
  produced by the calls of that invocation, in call order (they are the objects appended
  to the store). A done node, state and children, is never changed again. The tree that
  \<^verbatim>\<open>snapshot()\<close> reads satisfies \<open>children_ok\<close>, which is what is asked of the snapshots
  passed to \<^verbatim>\<open>start\<close>.
\<close>

theorem children_all_or_nothing:
  assumes "run acts (init opts) = Some st" "list_all ok_action acts"
  shows "(\<forall>a s t u cs. deref (heap st) a = Some (TaskNode s t u cs) \<and> s \<noteq> Done \<longrightarrow> cs = [])
    \<and> (\<forall>i tk f q. i < length (inflight st) \<and> inflight st ! i = (tk, f) \<and>
          f (task_url tk) = Resolved q \<longrightarrow>
          (\<exists>st' t u. perform (Settle i) st = Some (Inr st') \<and>
             deref (heap st) (task_node tk) = Some (TaskNode Waiting t u []) \<and>
             deref (heap st') (task_node tk)
               = Some (TaskNode Done t u [length (heap st)..<length (heap st')]) \<and>
             drop (length (heap st)) (heap st')
               = produced (s_distinct (options st)) (urlSet st) q))
    \<and> (\<forall>acts' st' a t u cs. list_all ok_action acts' \<and> run acts' st = Some st' \<and>
          deref (heap st) a = Some (TaskNode Done t u cs) \<longrightarrow>
          deref (heap st') a = Some (TaskNode Done t u cs))
    \<and> (\<forall>r t. crawlTree st = Some r \<and> tree_at (heap st) [] r = Some t \<longrightarrow>
          children_ok t \<and> (\<forall>doc. json_tree t = Some doc \<longrightarrow> children_ok doc))"
proof -
  from run_inv1[OF init_inv1 assms(2,1)] have inv: "inv1 st" by simp
  have 1: "\<forall>a s t u cs. deref (heap st) a = Some (TaskNode s t u cs) \<and> s \<noteq> Done \<longrightarrow> cs = []"
  proof (intro allI impI)
    fix a s t u cs
    assume d: "deref (heap st) a = Some (TaskNode s t u cs) \<and> s \<noteq> Done"
    then have "a < length (heap st)" by (auto dest: deref_lt)
    with inv d have "node_ok (TaskNode s t u cs)"
      by (auto simp: inv1_def ok_def list_all_length deref_def)
    with d show "cs = []" by simp
  qed
  have 2: "\<forall>i tk f q. i < length (inflight st) \<and> inflight st ! i = (tk, f) \<and>
          f (task_url tk) = Resolved q \<longrightarrow>
          (\<exists>st' t u. perform (Settle i) st = Some (Inr st') \<and>
             deref (heap st) (task_node tk) = Some (TaskNode Waiting t u []) \<and>
             deref (heap st') (task_node tk)
               = Some (TaskNode Done t u [length (heap st)..<length (heap st')]) \<and>
             drop (length (heap st)) (heap st')
               = produced (s_distinct (options st)) (urlSet st) q)"
  proof (intro allI impI, elim conjE)
    fix i tk f q
    assume i: "i < length (inflight st)" and tk: "inflight st ! i = (tk, f)"
      and f: "f (task_url tk) = Resolved q"
    let ?st0 = "st\<lparr>inflight := remove_nth i (inflight st)\<rparr>"
    let ?N = "produced (s_distinct (options st)) (urlSet st) q"
    from pending_remove_inflight[OF i inv] tk obtain t u where
      d: "deref (heap st) (task_node tk) = Some (TaskNode Waiting t u [])"
      by (auto simp: waiting_at_def)
    then have lt: "task_node tk < length (heap st)" by (rule deref_lt)
    have p: "perform (Settle i) st = Some (Inr (task_settle tk (Resolved q) ?st0))"
      using i tk f by (simp add: perform_def)
    have h: "heap (task_settle tk (Resolved q) ?st0)
        = (heap st @ ?N)[task_node tk := TaskNode Done t u [length (heap st)..<length (heap st) + length ?N]]"
      using task_settle_resolved[of ?st0 tk t u q] d by simp
    have "deref (heap (task_settle tk (Resolved q) ?st0)) (task_node tk)
          = Some (TaskNode Done t u [length (heap st)..<length (heap (task_settle tk (Resolved q) ?st0))])"
      unfolding h using lt by (simp add: deref_def)
    moreover have "drop (length (heap st)) (heap (task_settle tk (Resolved q) ?st0)) = ?N"
      unfolding h using lt by (simp add: drop_update_cancel)
    ultimately show "\<exists>st' t u. perform (Settle i) st = Some (Inr st') \<and>
             deref (heap st) (task_node tk) = Some (TaskNode Waiting t u []) \<and>
             deref (heap st') (task_node tk)
               = Some (TaskNode Done t u [length (heap st)..<length (heap st')]) \<and>
             drop (length (heap st)) (heap st') = ?N"
      using p d by blast
  qed
  have 3: "\<forall>acts' st' a t u cs. list_all ok_action acts' \<and> run acts' st = Some st' \<and>
          deref (heap st) a = Some (TaskNode Done t u cs) \<longrightarrow>
          deref (heap st') a = Some (TaskNode Done t u cs)"
  proof (intro allI impI, elim conjE)
    fix acts' st' a t u cs
    assume "list_all ok_action acts'" "run acts' st = Some st'"
      and d: "deref (heap st) a = Some (TaskNode Done t u cs)"
    with run_inv1[OF inv] have "frozen (heap st) (heap st')" by blast
    with d show "deref (heap st') a = Some (TaskNode Done t u cs)" by (simp add: frozen_def)
  qed
  have 4: "\<forall>r t. crawlTree st = Some r \<and> tree_at (heap st) [] r = Some t \<longrightarrow>
          children_ok t \<and> (\<forall>doc. json_tree t = Some doc \<longrightarrow> children_ok doc)"
    using inv tree_at_children_ok[of "heap st" "[]"]
    by (auto simp: inv1_def ok_def children_ok_json_tree)
  from 1 2 3 4 show ?thesis by blast
qed


theorem children_all_or_nothing_witness:
  "\<exists>st st' t u.
     run [Register ''root'' example_root, Start [ArgStr ''root'', ArgStr ''a''], Run 0]
       (init plain_opts) = Some st \<and>
     perform (Settle 0) st = Some (Inr st') \<and>
     deref (heap st') 0 = Some (TaskNode Done t u [length (heap st)..<length (heap st')]) \<and>
     drop (length (heap st)) (heap st') = [DataNode (Some (JNum 1)), TaskNode Waiting ''leaf'' ''b'' []]"
proof -
  let ?acts = "[Register ''root'' example_root, Start [ArgStr ''root'', ArgStr ''a''], Run 0]"
  let ?tk = "\<lparr>task_node = 0, task_template = ''root'', task_url = ''a''\<rparr>"
  let ?S = "(init plain_opts)\<lparr>heap := [TaskNode Waiting ''root'' ''a'' []], crawlTree := Some 0,
     urlSet := {''a''}, templates := [''root'' \<mapsto> example_root],
     inflight := [(?tk, example_root)], busy := True, started := True\<rparr>"
  have r: "run ?acts (init plain_opts) = Some ?S"
    by (simp add: perform_def register_def start_def and_then_def startWithEntry_result
        task_begin_def remove_nth_def init_def plain_opts_def assign_opts_def defaultOpts_def)
  have o: "list_all ok_action ?acts" by simp
  have "\<forall>i tk f q. i < length (inflight ?S) \<and> inflight ?S ! i = (tk, f) \<and>
          f (task_url tk) = Resolved q \<longrightarrow>
          (\<exists>st' t u. perform (Settle i) ?S = Some (Inr st') \<and>
             deref (heap ?S) (task_node tk) = Some (TaskNode Waiting t u []) \<and>
             deref (heap st') (task_node tk)
               = Some (TaskNode Done t u [length (heap ?S)..<length (heap st')]) \<and>
             drop (length (heap ?S)) (heap st')
               = produced (s_distinct (options ?S)) (urlSet ?S) q)"
    using children_all_or_nothing[OF r o] by blast
  then have "\<exists>st' t u. perform (Settle 0) ?S = Some (Inr st') \<and>
             deref (heap ?S) (task_node ?tk) = Some (TaskNode Waiting t u []) \<and>
             deref (heap st') (task_node ?tk)
               = Some (TaskNode Done t u [length (heap ?S)..<length (heap st')]) \<and>
             drop (length (heap ?S)) (heap st')
               = produced (s_distinct (options ?S)) (urlSet ?S) [AddData (JNum 1), AddTask ''leaf'' ''b'']"
    by (rule allE[of _ 0], elim allE[of _ ?tk] allE[of _ example_root]
          allE[of _ "[AddData (JNum 1), AddTask ''leaf'' ''b'']"])
       (simp add: example_root_def)
  then obtain st' t u where
    "perform (Settle 0) ?S = Some (Inr st')"
    "deref (heap st') 0 = Some (TaskNode Done t u [length (heap ?S)..<length (heap st')])"
    "drop (length (heap ?S)) (heap st')
       = produced (s_distinct (options ?S)) (urlSet ?S) [AddData (JNum 1), AddTask ''leaf'' ''b'']"
    by auto
  moreover have "produced (s_distinct (options ?S)) (urlSet ?S) [AddData (JNum 1), AddTask ''leaf'' ''b'']
     = [DataNode (Some (JNum 1)), TaskNode Waiting ''leaf'' ''b'' []]"
    by (simp add: init_def)
  ultimately show ?thesis using r by metis
qed

section \<open>Fields that the steps leave alone\<close>

lemma exec_frame:
  "exec tn q st = Inr st' \<Longrightarrow>
     started st' = started st \<and> stopped st' = stopped st \<and> templates st' = templates st \<and>
     options st' = options st \<and> inflight st' = inflight st \<and> emitted st' = emitted st"
  by (induction tn q st rule: exec.induct)
     (auto simp: addTask_def alloc_def split: option.splits if_splits prod.splits)

lemma exec_Some_total: "\<exists>st'. exec (Some p) q st = Inr st'"
  by (induction "Some p" q st rule: exec.induct) (auto simp: alloc_def)

lemma task_settle_started [simp]: "started (task_settle tk out st) = started st"
  using exec_frame[of "Some (task_node tk)" _ st]
  by (auto simp: task_settle_def catch_fail_def split: outcome.splits sum.splits)

lemma task_begin_started [simp]: "started (task_begin tk st) = started st"
  by (simp add: task_begin_def catch_fail_def split: option.splits)

lemma start_sets_started: "start args st = Some (Inr st') \<Longrightarrow> started st'"
  by (auto simp: start_def and_then_def split: if_splits option.splits sum.splits)

lemma perform_started:
  "started st \<Longrightarrow> perform act st = Some (Inr st') \<Longrightarrow> started st'"
  by (cases act)
     (auto simp: perform_def register_def stop_def snapshot_def onDone_def parse_def
           dest: start_sets_started split: if_splits option.splits sum.splits prod.splits list.splits)

lemma run_started: "started st \<Longrightarrow> run acts st = Some st' \<Longrightarrow> started st'"
proof (induction acts arbitrary: st)
  case Nil
  then show ?case by simp
next
  case (Cons act acts)
  then show ?case
    by (auto split: option.splits sum.splits dest: perform_started)
qed

section \<open>Starting with a wrong number of arguments\<close>

text \<open>
  C10. The first call of \<^verbatim>\<open>start\<close> with an argument count other than 1 or 2 raises no
  error and changes nothing of the instance (no work is dispatched), but it is the one
  start the instance permits: whatever happens afterwards, every later call of \<^verbatim>\<open>start\<close>,
  with any arguments, throws.
\<close>

theorem start_wrong_arity:
  assumes "\<not> started st" "length args \<noteq> 1" "length args \<noteq> 2"
  shows "start args st = Some (Inr (st\<lparr>started := True\<rparr>)) \<and>
         (\<forall>acts st' args'. run acts (st\<lparr>started := True\<rparr>) = Some st' \<longrightarrow>
             start args' st' = Some (Inl CannotStartAgain))"
proof
  show "start args st = Some (Inr (st\<lparr>started := True\<rparr>))"
    using assms by (simp add: start_def and_then_def)
next
  show "\<forall>acts st' args'. run acts (st\<lparr>started := True\<rparr>) = Some st' \<longrightarrow>
             start args' st' = Some (Inl CannotStartAgain)"
  proof (intro allI impI)
    fix acts st' args'
    assume "run acts (st\<lparr>started := True\<rparr>) = Some st'"
    then have "started st'" by (rule run_started[rotated]) simp
    then show "start args' st' = Some (Inl CannotStartAgain)" by (simp add: start_def)
  qed
qed

theorem start_wrong_arity_witness:
  "\<not> started (init plain_opts) \<and>
   start [] (init plain_opts) = Some (Inr ((init plain_opts)\<lparr>started := True\<rparr>)) \<and>
   taskQueue ((init plain_opts)\<lparr>started := True\<rparr>) = [] \<and>
   run [Stop] ((init plain_opts)\<lparr>started := True\<rparr>) = Some ((init plain_opts)\<lparr>started := True, stopped := True\<rparr>) \<and>
   start [ArgStr ''root'', ArgStr ''a''] ((init plain_opts)\<lparr>started := True, stopped := True\<rparr>) = Some (Inl CannotStartAgain)"
proof -
  let ?s = "(init plain_opts)\<lparr>started := True\<rparr>"
  have n: "\<not> started (init plain_opts)" by (simp add: init_def)
  have t: "start [] (init plain_opts) = Some (Inr ?s) \<and>
         (\<forall>acts st' args'. run acts ?s = Some st' \<longrightarrow>
             start args' st' = Some (Inl CannotStartAgain))"
    by (rule start_wrong_arity[OF n]) simp_all
  have q: "taskQueue ?s = []" by (simp add: init_def)
  have r: "run [Stop] ?s = Some ((init plain_opts)\<lparr>started := True, stopped := True\<rparr>)"
    by (simp add: perform_def stop_def)
  from t r have c: "start [ArgStr ''root'', ArgStr ''a'']
      ((init plain_opts)\<lparr>started := True, stopped := True\<rparr>) = Some (Inl CannotStartAgain)"
    by blast
  from n t q r c show ?thesis by blast
qed

section \<open>Failing tasks\<close>

text \<open>
  C5. A task whose template is not registered fails when its body runs (with the stop
  flag unset), and a task whose template function rejects or throws fails when the template
  settles: the node's state becomes \<open>Fail\<close>, its children are what they were (empty for a
  dispatched node), the calls the template made to the collector are dropped, a \<^verbatim>\<open>fail\<close>
  event carrying the error is emitted, and the step itself returns normally. Nothing else
  of the instance changes.
\<close>

theorem failed_task:
  assumes "deref (heap st) (task_node tk) = Some (TaskNode s t u cs)"
  shows "(i < length (taskQueue st) \<and> taskQueue st ! i = tk \<and> \<not> stopped st \<and>
          templates st (task_template tk) = None \<longrightarrow>
            perform (Run i) st =
              Some (Inr (st\<lparr>taskQueue := remove_nth i (taskQueue st),
                           heap := (heap st)[task_node tk := TaskNode Fail t u cs],
                           emitted := emitted st @ [FailEv (TemplateNotExist (task_template tk))]\<rparr>)))
       \<and> (i < length (inflight st) \<and> inflight st ! i = (tk, f) \<and>
          f (task_url tk) = Rejected q err \<longrightarrow>
            perform (Settle i) st =
              Some (Inr (st\<lparr>inflight := remove_nth i (inflight st),
                           heap := (heap st)[task_node tk := TaskNode Fail t u cs],
                           emitted := emitted st @ [FailEv (Raised err)]\<rparr>)))"
  using assms
  by (simp add: perform_def task_begin_def task_settle_def catch_fail_def set_state_def)

theorem failed_task_witness:
  "perform (Run 0)
     ((init plain_opts)\<lparr>heap := [TaskNode Waiting ''root'' ''a'' []], crawlTree := Some 0,
        taskQueue := [\<lparr>task_node = 0, task_template = ''root'', task_url = ''a''\<rparr>]\<rparr>)
   = Some (Inr ((init plain_opts)\<lparr>heap := [TaskNode Fail ''root'' ''a'' []], crawlTree := Some 0,
        taskQueue := [], emitted := [FailEv (TemplateNotExist ''root'')]\<rparr>))
   \<and> perform (Settle 0)
     ((init plain_opts)\<lparr>heap := [TaskNode Waiting ''root'' ''a'' []], crawlTree := Some 0,
        inflight := [(\<lparr>task_node = 0, task_template = ''root'', task_url = ''a''\<rparr>,
                      \<lambda>u. Rejected [AddData (JNum 1)] (JStr ''boom''))]\<rparr>)
   = Some (Inr ((init plain_opts)\<lparr>heap := [TaskNode Fail ''root'' ''a'' []], crawlTree := Some 0,
        inflight := [], emitted := [FailEv (Raised (JStr ''boom''))]\<rparr>))"
  using failed_task[of "(init plain_opts)\<lparr>heap := [TaskNode Waiting ''root'' ''a'' []], crawlTree := Some 0,
        taskQueue := [\<lparr>task_node = 0, task_template = ''root'', task_url = ''a''\<rparr>]\<rparr>"
        "\<lparr>task_node = 0, task_template = ''root'', task_url = ''a''\<rparr>" Waiting "''root''" "''a''" "[]" 0]
    failed_task[of "(init plain_opts)\<lparr>heap := [TaskNode Waiting ''root'' ''a'' []], crawlTree := Some 0,
        inflight := [(\<lparr>task_node = 0, task_template = ''root'', task_url = ''a''\<rparr>,
                      \<lambda>u. Rejected [AddData (JNum 1)] (JStr ''boom''))]\<rparr>"
        "\<lparr>task_node = 0, task_template = ''root'', task_url = ''a''\<rparr>" Waiting "''root''" "''a''" "[]" 0
        "\<lambda>u. Rejected [AddData (JNum 1)] (JStr ''boom'')" "[AddData (JNum 1)]" "JStr ''boom''"]
  by (simp add: init_def deref_def remove_nth_def)

section \<open>Stopping\<close>

lemma task_begin_stopped: "stopped st \<Longrightarrow> task_begin tk st = st"
  by (simp add: task_begin_def)

text \<open>
  C9. The claim: after \<^verbatim>\<open>stop()\<close> every body run from the queue returns at once with no
  effect, completed nodes are untouched, and \<^verbatim>\<open>done\<close> is never emitted for the run. The
  first part holds (\<open>task_begin_stopped\<close>). The last does not: \<^verbatim>\<open>onDone\<close> looks at the
  stop flag when it sets the timer, not when the timer fires. Started from a snapshot that
  is complete, then stopped in the same turn, the instance still emits \<^verbatim>\<open>done\<close>.
\<close>

theorem done_emitted_after_stop:
  "map_option (\<lambda>st. (stopped st, emitted st))
     (run [Start [ArgNode (TaskT Done ''root'' ''a'' [])], Stop, Tick] (init plain_opts))
   = Some (True, [DoneEv])"
  by (simp add: perform_def start_def and_then_def startWithSnapshot_def parse_def
      preOrderTraversal_def handle_def startWithSnapshot_cb_def deref_def loop_pop loop_nil
      onDone_def stop_def init_def)

section \<open>URLs are admitted once\<close>

lemma grows_refl [simp]: "grows h h"
  by (simp add: grows_def)

lemma tree_nodes_lt:
  assumes "closed h" "r < length h" "x \<in> tree_nodes h r"
  shows "x < length h"
  using assms(3)
proof (induction rule: tree_nodes.induct)
  case root_node
  then show ?case using assms(2) .
next
  case (child_node p c)
  then have "h ! p \<in> set h" by simp
  with assms(1) child_node.hyps(3) show ?case by (auto simp: closed_def)
qed

lemma grows_nodes:
  assumes "closed h" "r < length h" "grows h h'" "x \<in> tree_nodes h' r"
  shows "x \<in> tree_nodes h r \<or> length h \<le> x"
  using assms(4)
proof (induction rule: tree_nodes.induct)
  case root_node
  then show ?case by (simp add: tree_nodes.root_node)
next
  case (child_node p c)
  show ?case
  proof (cases "length h \<le> p")
    case True
    with child_node assms(3) show ?thesis by (auto simp: grows_def)
  next
    case False
    with child_node.IH have p: "p \<in> tree_nodes h r" "p < length h" by simp_all
    with child_node.hyps(3) assms(3) have "c \<in> set (kids (h ! p)) \<or> length h \<le> c"
      by (auto simp: grows_def)
    with p show ?thesis by (auto intro: tree_nodes.child_node)
  qed
qed

lemma grows_new_root:
  assumes "grows h h'" "length h \<le> r" "x \<in> tree_nodes h' r"
  shows "length h \<le> x"
  using assms(3)
proof (induction rule: tree_nodes.induct)
  case root_node
  then show ?case using assms(2) .
next
  case (child_node p c)
  with assms(1) show ?case by (auto simp: grows_def)
qed

lemma grows_url: "grows h h' \<Longrightarrow> a < length h \<Longrightarrow> url_at h' a = url_at h a"
  by (auto simp: grows_def url_at_def)

lemma task_at_url: "task_at h a = (url_at h a \<noteq> None)"
proof (cases "a < length h")
  case True
  then show ?thesis by (cases "h ! a") (auto simp: task_at_def url_at_def deref_def)
next
  case False
  then show ?thesis by (simp add: task_at_def url_at_def deref_def)
qed

lemma grows_task_at: "grows h h' \<Longrightarrow> task_at h a \<Longrightarrow> task_at h' a"
  unfolding task_at_url using grows_url[of h h' a]
  by (cases "a < length h") (auto simp: url_at_def)

lemma grows_append:
  "\<forall>n \<in> set N. \<forall>c \<in> set (kids n). length h \<le> c \<Longrightarrow> grows h (h @ N)"
  by (auto simp: grows_def nth_append)

lemma closed_append:
  "closed h \<Longrightarrow> \<forall>n \<in> set N. \<forall>c \<in> set (kids n). c < length h + length N \<Longrightarrow> closed (h @ N)"
  by (fastforce simp: closed_def)

lemma grows_commit:
  assumes "p < length h" "h ! p = TaskNode s t u cs" "\<forall>n \<in> set N. kids n = []"
  shows "grows h ((h @ N)[p := TaskNode s' t u (cs @ [length h..<length h + length N])])"
proof -
  let ?h' = "(h @ N)[p := TaskNode s' t u (cs @ [length h..<length h + length N])]"
  have 1: "length h \<le> length ?h'" by simp
  have 2: "node_url (?h' ! a) = node_url (h ! a) \<and>
        (\<forall>c \<in> set (kids (?h' ! a)). c \<in> set (kids (h ! a)) \<or> length h \<le> c)"
    if a: "a < length h" for a
    using a assms(1,2) by (cases "a = p") (auto simp: nth_append)
  have 3: "\<forall>c \<in> set (kids (?h' ! a)). length h \<le> c"
    if a: "length h \<le> a \<and> a < length ?h'" for a
  proof -
    from a have "a \<noteq> p" using assms(1) by auto
    moreover from a have i: "a - length h < length N" by auto
    ultimately have "?h' ! a = N ! (a - length h)"
      using a by (simp add: nth_append)
    moreover from i assms(3) have "kids (N ! (a - length h)) = []" by simp
    ultimately show ?thesis by simp
  qed
  from 1 2 3 show ?thesis unfolding grows_def by blast
qed

lemma closed_commit:
  assumes "closed h" "p < length h" "h ! p = TaskNode s t u cs" "\<forall>n \<in> set N. kids n = []"
  shows "closed ((h @ N)[p := TaskNode s' t u (cs @ [length h..<length h + length N])])"
proof -
  have "closed (h @ N)" using assms(1,4) by (intro closed_append) auto
  moreover have "\<forall>c \<in> set cs. c < length h"
    using assms(1,2,3) by (metis closed_def kids.simps(2) nth_mem)
  ultimately show ?thesis
    unfolding closed_def
    by (fastforce dest!: set_update_subset_insert[THEN subsetD])
qed

lemma grows_set_state:
  "grows h (set_state h p s')"
proof (cases "deref h p")
  case None
  then show ?thesis by (simp add: set_state_def)
next
  case (Some n)
  then have p: "p < length h" "h ! p = n" by (auto simp: deref_def split: if_splits)
  show ?thesis
  proof (cases n)
    case (DataNode d)
    with Some show ?thesis by (simp add: set_state_def)
  next
    case (TaskNode s t u cs)
    have "grows h (h[p := TaskNode s' t u cs])"
      unfolding grows_def using p TaskNode
      by (auto simp: nth_list_update)
    with Some TaskNode show ?thesis by (simp add: set_state_def)
  qed
qed

lemma closed_set_state: "closed h \<Longrightarrow> closed (set_state h p s')"
proof (cases "deref h p")
  case None
  then show "closed h \<Longrightarrow> ?thesis" by (simp add: set_state_def)
next
  case (Some n)
  assume c: "closed h"
  from Some have p: "p < length h" "h ! p = n" by (auto simp: deref_def split: if_splits)
  show ?thesis
  proof (cases n)
    case (DataNode d)
    with Some c show ?thesis by (simp add: set_state_def)
  next
    case (TaskNode s t u cs)
    have "\<forall>c \<in> set cs. c < length h"
      using c p TaskNode by (metis closed_def kids.simps(2) nth_mem)
    with c have "closed (h[p := TaskNode s' t u cs])"
      unfolding closed_def by (auto dest!: set_update_subset_insert[THEN subsetD])
    with Some TaskNode show ?thesis by (simp add: set_state_def)
  qed
qed


lemma urls_of_nth: "i < length N \<Longrightarrow> node_url (N ! i) = Some u \<Longrightarrow> u \<in> set (urls_of N)"
proof (induction N arbitrary: i rule: urls_of.induct)
  case 1
  then show ?case by simp
next
  case (2 d os)
  then show ?case by (cases i) auto
next
  case (3 s t u' cs os)
  then show ?case by (cases i) auto
qed

lemma urls_of_inj:
  "distinct (urls_of N) \<Longrightarrow> i < length N \<Longrightarrow> j < length N \<Longrightarrow>
   node_url (N ! i) = Some u \<Longrightarrow> node_url (N ! j) = Some u \<Longrightarrow> i = j"
proof (induction N arbitrary: i j rule: urls_of.induct)
  case 1
  then show ?case by simp
next
  case (2 d os)
  then show ?case by (cases i; cases j) auto
next
  case (3 s t u' cs os)
  show ?case
  proof (cases i)
    case 0
    show ?thesis
    proof (cases j)
      case 0
      with \<open>i = 0\<close> show ?thesis by simp
    next
      case (Suc j')
      with 3 0 urls_of_nth[of j' os u] show ?thesis by auto
    qed
  next
    case (Suc i')
    show ?thesis
    proof (cases j)
      case 0
      with 3 Suc urls_of_nth[of i' os u] show ?thesis by auto
    next
      case (Suc j')
      with 3 \<open>i = Suc i'\<close> show ?thesis by auto
    qed
  qed
qed

lemma url_at_new:
  assumes "drop (length h) h' = N" "length h \<le> a" "url_at h' a = Some u"
  shows "a - length h < length N \<and> node_url (N ! (a - length h)) = Some u"
proof -
  from assms(3) have a: "a < length h'" "node_url (h' ! a) = Some u"
    by (auto simp: url_at_def split: if_splits)
  from assms(1)[symmetric] a(1) assms(2) have "N ! (a - length h) = h' ! a" by simp
  with a assms show ?thesis by auto
qed

lemma inv2_uinv:
  "inv2 st \<longleftrightarrow> uinv (heap st) (crawlTree st) (urlSet st) \<and>
     (\<forall>a \<in> set (pending st). task_at (heap st) a)"
  by (auto simp: inv2_def uinv_def urls_unique_def urls_recorded_def nodes_of_def nodes_def)

lemma uinv_step:
  assumes inv: "uinv h ropt U" and g: "grows h h'" and c: "closed h'"
    and new: "drop (length h) h' = N" "distinct (urls_of N)" "set (urls_of N) \<inter> U = {}"
  shows "uinv h' ropt (U \<union> set (urls_of N))"
proof (cases ropt)
  case None
  with c show ?thesis by (simp add: uinv_def nodes_def)
next
  case (Some r)
  from inv Some have ch: "closed h" and r: "r < length h"
    and uniq: "\<And>a b u. a \<in> tree_nodes h r \<Longrightarrow> b \<in> tree_nodes h r \<Longrightarrow>
                 url_at h a = Some u \<Longrightarrow> url_at h b = Some u \<Longrightarrow> a = b"
    and rec: "\<And>a u. a \<in> tree_nodes h r \<Longrightarrow> url_at h a = Some u \<Longrightarrow> u \<in> U"
    by (auto simp: uinv_def nodes_def)
  from g have len: "length h \<le> length h'" by (simp add: grows_def)
  have split: "(a \<in> tree_nodes h r \<and> a < length h \<and> url_at h a = Some u \<and> u \<in> U) \<or>
               (length h \<le> a \<and> a - length h < length N \<and> node_url (N ! (a - length h)) = Some u
                  \<and> u \<in> set (urls_of N))"
    if a: "a \<in> tree_nodes h' r" "url_at h' a = Some u" for a u
  proof (cases "length h \<le> a")
    case True
    from url_at_new[OF new(1) True a(2)] urls_of_nth show ?thesis using True by blast
  next
    case False
    with grows_nodes[OF ch r g a(1)] have "a \<in> tree_nodes h r" by simp
    moreover from False grows_url[OF g, of a] a(2) have "url_at h a = Some u" by simp
    ultimately show ?thesis using rec False by auto
  qed
  have u: "a = b" if a: "a \<in> tree_nodes h' r" "url_at h' a = Some u"
    and b: "b \<in> tree_nodes h' r" "url_at h' b = Some u" for a b u
    using split[OF a] split[OF b]
  proof (elim disjE conjE)
    assume "a \<in> tree_nodes h r" "b \<in> tree_nodes h r" "url_at h a = Some u" "url_at h b = Some u"
    then show ?thesis by (rule uniq)
  next
    assume "u \<in> U" "u \<in> set (urls_of N)"
    with new(3) show ?thesis by blast
  next
    assume "u \<in> set (urls_of N)" "u \<in> U"
    with new(3) show ?thesis by blast
  next
    assume "length h \<le> a" "length h \<le> b" "a - length h < length N" "b - length h < length N"
      "node_url (N ! (a - length h)) = Some u" "node_url (N ! (b - length h)) = Some u"
    with urls_of_inj[OF new(2), of "a - length h" "b - length h" u] show ?thesis by simp
  qed
  have "r < length h'" using r len by simp
  with c u split Some show ?thesis
    unfolding uinv_def nodes_def by (simp; blast)
qed

lemma uinv_new_root:
  assumes g: "grows h h'" and c: "closed h'" and r: "length h \<le> r" "r < length h'"
    and new: "drop (length h) h' = N" "distinct (urls_of N)"
  shows "uinv h' (Some r) (U \<union> set (urls_of N))"
proof -
  have split: "length h \<le> a \<and> a - length h < length N \<and> node_url (N ! (a - length h)) = Some u
                  \<and> u \<in> set (urls_of N)"
    if a: "a \<in> tree_nodes h' r" "url_at h' a = Some u" for a u
  proof -
    from grows_new_root[OF g r(1) a(1)] have "length h \<le> a" .
    from url_at_new[OF new(1) this a(2)] urls_of_nth this show ?thesis by blast
  qed
  have u: "a = b" if a: "a \<in> tree_nodes h' r" "url_at h' a = Some u"
    and b: "b \<in> tree_nodes h' r" "url_at h' b = Some u" for a b u
    using split[OF a] split[OF b] urls_of_inj[OF new(2), of "a - length h" "b - length h" u]
    by auto
  from c r(2) u split show ?thesis
    unfolding uinv_def nodes_def by (simp; blast)
qed

lemma append_nodes:
  assumes "closed h" "r < length h" "x \<in> tree_nodes (h @ N) r"
  shows "x \<in> tree_nodes h r"
  using assms(3)
proof (induction rule: tree_nodes.induct)
  case root_node
  then show ?case by (rule tree_nodes.root_node)
next
  case (child_node p c)
  from tree_nodes_lt[OF assms(1,2) child_node.IH] have "p < length h" .
  with child_node show ?case by (auto simp: nth_append intro: tree_nodes.child_node)
qed

lemma uinv_append:
  assumes inv: "uinv h ropt U" and c: "closed (h @ N)"
  shows "uinv (h @ N) ropt U"
proof (cases ropt)
  case None
  with c show ?thesis by (simp add: uinv_def nodes_def)
next
  case (Some r)
  from inv Some have ch: "closed h" and r: "r < length h" by (auto simp: uinv_def)
  have old: "a \<in> tree_nodes h r \<and> url_at (h @ N) a = url_at h a" if "a \<in> tree_nodes (h @ N) r" for a
  proof -
    from append_nodes[OF ch r that] have a: "a \<in> tree_nodes h r" .
    from tree_nodes_lt[OF ch r a] have "a < length h" .
    with a show ?thesis by (simp add: url_at_def nth_append)
  qed
  with inv Some c r show ?thesis
    unfolding uinv_def nodes_def by (simp; metis)
qed


lemma produced_urls:
  "dis \<Longrightarrow> distinct (urls_of (produced dis U q)) \<and> set (urls_of (produced dis U q)) \<inter> U = {}"
proof (induction dis U q rule: produced.induct)
  case (3 dis seen t u q)
  show ?case
  proof (cases "u \<in> seen")
    case True
    with 3 show ?thesis by simp
  next
    case False
    with 3 have "distinct (urls_of (produced dis (insert u seen) q))"
      "set (urls_of (produced dis (insert u seen) q)) \<inter> insert u seen = {}" by simp_all
    with False show ?thesis by auto
  qed
qed simp_all

lemma produced_kids: "\<forall>n \<in> set (produced dis U q). kids n = []"
  by (induction dis U q rule: produced.induct) simp_all

lemma task_settle_resolved_gen:
  assumes "deref (heap st) (task_node tk) = Some (TaskNode s t u cs)"
  shows "task_settle tk (Resolved q) st =
     st\<lparr>heap := (heap st @ produced (s_distinct (options st)) (urlSet st) q)
                   [task_node tk := TaskNode Done t u (cs @ [length (heap st)..<length (heap st)
                          + length (produced (s_distinct (options st)) (urlSet st) q)])],
        urlSet := urlSet st \<union> set (urls_of (produced (s_distinct (options st)) (urlSet st) q)),
        taskQueue := taskQueue st
           @ tasks_of (length (heap st)) (produced (s_distinct (options st)) (urlSet st) q),
        timers := timers st @ data_events q,
        busy := (busy st \<or>
           tasks_of (length (heap st)) (produced (s_distinct (options st)) (urlSet st) q) \<noteq> [])\<rparr>"
proof -
  from assms have "task_node tk < length (heap st)" by (rule deref_lt)
  then show ?thesis
    by (simp add: task_settle_def exec_result[OF assms] set_state_def deref_def)
qed

lemma tasks_of_task:
  "tk \<in> set (tasks_of k os) \<Longrightarrow> node_url (os ! (task_node tk - k)) \<noteq> None"
proof (induction k os rule: tasks_of.induct)
  case (1 k)
  then show ?case by simp
next
  case (2 k d os)
  then have "tk \<in> set (tasks_of (Suc k) os)" by simp
  moreover from this have "Suc k \<le> task_node tk" using tasks_of_bounds by blast
  ultimately show ?case using 2 by (auto simp: Suc_diff_le)
next
  case (3 k s t u cs os)
  show ?case
  proof (cases "task_node tk = k")
    case True
    then show ?thesis by simp
  next
    case False
    with 3(2) have in': "tk \<in> set (tasks_of (Suc k) os)" by (auto split: if_splits)
    then have "Suc k \<le> task_node tk" using tasks_of_bounds by blast
    with 3 in' show ?thesis by (auto simp: Suc_diff_le)
  qed
qed

lemma child_addrs_bounds:
  "c \<in> set (child_addrs b ts) \<Longrightarrow> b \<le> c \<and> c < b + sum_list (map count ts)"
proof (induction ts arbitrary: b)
  case Nil
  then show ?case by simp
next
  case (Cons t ts)
  have "0 < count t" by (cases t) simp_all
  with Cons show ?case by fastforce
qed

lemma objects_kids:
  "n \<in> set (objects b t) \<Longrightarrow> c \<in> set (kids n) \<Longrightarrow> b \<le> c \<and> c < b + count t"
  "n \<in> set (objects_list b ts) \<Longrightarrow> c \<in> set (kids n) \<Longrightarrow> b \<le> c \<and> c < b + sum_list (map count ts)"
proof (induction b t and b ts arbitrary: n c and n c rule: objects_objects_list.induct)
  case (1 b d)
  then show ?case by simp
next
  case (2 b s t u ts)
  from "2.prems"(1) consider "n = TaskNode s t u (child_addrs (Suc b) ts)"
    | "n \<in> set (objects_list (Suc b) ts)" by auto
  then show ?case
  proof cases
    case 1
    with "2.prems"(2) child_addrs_bounds[of c "Suc b" ts] show ?thesis by auto
  next
    case 2
    from "2.IH"[OF this "2.prems"(2)] show ?thesis by auto
  qed
next
  case (3 b)
  then show ?case by simp
next
  case (4 b t ts)
  from "4.prems"(1) consider "n \<in> set (objects b t)" | "n \<in> set (objects_list (b + count t) ts)"
    by auto
  then show ?case
  proof cases
    case 1
    from "4.IH"(1)[OF this "4.prems"(2)] show ?thesis by auto
  next
    case 2
    from "4.IH"(2)[OF this "4.prems"(2)] show ?thesis by auto
  qed
qed

lemma grows_objects: "grows h (h @ objects (length h) t)"
  by (rule grows_append) (use objects_kids(1) in blast)

lemma closed_objects: "closed h \<Longrightarrow> closed (h @ objects (length h) t)"
  by (rule closed_append) (use objects_kids(1) in \<open>auto simp: length_objects\<close>)

lemma task_urls_reset: "task_urls (reset_states t) = task_urls t"
  by (induction t) (simp_all add: comp_def cong: map_cong)

lemma length_set_state [simp]: "length (set_state h p s) = length h"
  by (auto simp: set_state_def split: option.splits node.splits)

lemma set_remove_nth: "set (remove_nth i xs) \<subseteq> set xs"
  by (auto simp: remove_nth_def dest: in_set_takeD in_set_dropD)

lemma catch_fail_inv2:
  assumes "uinv (heap st) (crawlTree st) (urlSet st)" "\<forall>a \<in> set (pending st). task_at (heap st) a"
  shows "inv2 (catch_fail tk e st)"
proof -
  let ?h' = "set_state (heap st) (task_node tk) Fail"
  have "uinv ?h' (crawlTree st) (urlSet st \<union> set (urls_of []))"
    by (rule uinv_step[OF assms(1) grows_set_state closed_set_state])
       (use assms(1) in \<open>simp_all add: uinv_def\<close>)
  moreover have "\<forall>a \<in> set (pending st). task_at ?h' a"
    using assms(2) grows_task_at[OF grows_set_state] by blast
  ultimately show ?thesis
    by (simp add: inv2_uinv catch_fail_def pending_def)
qed

lemma task_begin_inv2:
  assumes "uinv (heap st) (crawlTree st) (urlSet st)" "\<forall>a \<in> set (pending st). task_at (heap st) a"
    "task_at (heap st) (task_node tk)"
  shows "inv2 (task_begin tk st)"
proof (cases "stopped st")
  case True
  with assms show ?thesis by (simp add: task_begin_def inv2_uinv)
next
  case False
  show ?thesis
  proof (cases "templates st (task_template tk)")
    case None
    with False catch_fail_inv2[OF assms(1,2)] show ?thesis by (simp add: task_begin_def)
  next
    case (Some f)
    with False assms show ?thesis by (auto simp: task_begin_def inv2_uinv pending_def)
  qed
qed

lemma task_settle_inv2:
  assumes "uinv (heap st) (crawlTree st) (urlSet st)" "\<forall>a \<in> set (pending st). task_at (heap st) a"
    "task_at (heap st) (task_node tk)" "s_distinct (options st)"
  shows "inv2 (task_settle tk out st)"
proof (cases out)
  case (Rejected q e)
  with catch_fail_inv2[OF assms(1,2)] show ?thesis by (simp add: task_settle_def)
next
  case (Resolved q)
  from assms(3) obtain s t u cs where
    d: "deref (heap st) (task_node tk) = Some (TaskNode s t u cs)"
    by (auto simp: task_at_def)
  then have p: "task_node tk < length (heap st)" "heap st ! task_node tk = TaskNode s t u cs"
    by (auto simp: deref_def split: if_splits)
  let ?N = "produced (s_distinct (options st)) (urlSet st) q"
  let ?h' = "(heap st @ ?N)[task_node tk := TaskNode Done t u (cs @ [length (heap st)..<length (heap st) + length ?N])]"
  from assms(1) have ch: "closed (heap st)" by (simp add: uinv_def)
  have g: "grows (heap st) ?h'" by (rule grows_commit[OF p produced_kids])
  have c: "closed ?h'" by (rule closed_commit[OF ch p produced_kids])
  have dr: "drop (length (heap st)) ?h' = ?N" using p(1) by (simp add: drop_update_cancel)
  have u: "uinv ?h' (crawlTree st) (urlSet st \<union> set (urls_of ?N))"
    using uinv_step[OF assms(1) g c dr] produced_urls[OF assms(4)] by blast
  have old: "\<forall>a \<in> set (pending st). task_at ?h' a"
    using assms(2) grows_task_at[OF g] by blast
  have new: "task_at ?h' (task_node x)" if x: "x \<in> set (tasks_of (length (heap st)) ?N)" for x
  proof -
    from tasks_of_bounds[OF x] have b: "length (heap st) \<le> task_node x"
      "task_node x - length (heap st) < length ?N" by auto
    with p(1) have "?h' ! task_node x = ?N ! (task_node x - length (heap st))"
      by (simp add: nth_append)
    with tasks_of_task[OF x] b show ?thesis
      unfolding task_at_url by (simp add: url_at_def)
  qed
  from u old new show ?thesis
    unfolding Resolved task_settle_resolved_gen[OF d] inv2_uinv
    by (auto simp: pending_def)
qed


lemma pending_upd [simp]:
  "pending (st\<lparr>heap := h\<rparr>) = pending st"
  "pending (st\<lparr>crawlTree := c\<rparr>) = pending st"
  "pending (st\<lparr>urlSet := U\<rparr>) = pending st"
  "pending (st\<lparr>templates := tm\<rparr>) = pending st"
  "pending (st\<lparr>stopped := b\<rparr>) = pending st"
  "pending (st\<lparr>started := b\<rparr>) = pending st"
  "pending (st\<lparr>busy := b\<rparr>) = pending st"
  "pending (st\<lparr>timers := ts\<rparr>) = pending st"
  "pending (st\<lparr>emitted := es\<rparr>) = pending st"
  by (simp_all add: pending_def)

lemma maybe_onDone [simp]:
  "heap ((if c then onDone else id) st) = heap st"
  "crawlTree ((if c then onDone else id) st) = crawlTree st"
  "urlSet ((if c then onDone else id) st) = urlSet st"
  "pending ((if c then onDone else id) st) = pending st"
  "options ((if c then onDone else id) st) = options st"
  by (simp_all add: onDone_def)

lemma onDone_fields [simp]:
  "crawlTree (onDone st) = crawlTree st"
  "urlSet (onDone st) = urlSet st"
  "options (onDone st) = options st"
  by (simp_all add: onDone_def)

lemma inv2_I:
  "uinv h c U \<Longrightarrow> (\<forall>a \<in> set P. task_at h a) \<Longrightarrow> heap st = h \<Longrightarrow> crawlTree st = c \<Longrightarrow>
   urlSet st = U \<Longrightarrow> pending st = P \<Longrightarrow> inv2 st"
  by (simp add: inv2_uinv)

lemma exec_urlSet: "exec tn q st = Inr st' \<Longrightarrow> urlSet st \<subseteq> urlSet st'"
  by (induction tn q st rule: exec.induct)
     (auto simp: addTask_def alloc_def split: option.splits if_splits prod.splits)

lemma start_inv2:
  assumes "inv2 st" "list_all arg_urls_ok args" "start args st = Some (Inr st')"
  shows "inv2 st'"
proof -
  let ?b = "length (heap st)"
  from assms(1) have u0: "uinv (heap st) (crawlTree st) (urlSet st)"
    and p0: "\<forall>a \<in> set (pending st). task_at (heap st) a" by (simp_all add: inv2_uinv)
  from u0 have ch: "closed (heap st)" by (simp add: uinv_def)
  have fresh: "inv2 st1"
    if N: "N \<noteq> []" "grows (heap st) (heap st @ N)" "closed (heap st @ N)" "distinct (urls_of N)"
      and st1: "heap st1 = heap st @ N" "crawlTree st1 = Some ?b"
        "urlSet st1 = urlSet st \<union> set (urls_of N)"
        "taskQueue st1 = taskQueue st @ tasks_of ?b N" "inflight st1 = inflight st"
    for N st1
  proof (rule inv2_I[OF _ _ st1(1,2,3) refl])
    show "uinv (heap st @ N) (Some ?b) (urlSet st \<union> set (urls_of N))"
      by (rule uinv_new_root[OF N(2,3)]) (use N(1,4) in simp_all)
    have old: "\<forall>a \<in> set (pending st). task_at (heap st @ N) a"
      using p0 grows_task_at[OF N(2)] by blast
    have new: "task_at (heap st @ N) (task_node x)" if x: "x \<in> set (tasks_of ?b N)" for x
    proof -
      from tasks_of_bounds[OF x] have b: "?b \<le> task_node x" "task_node x - ?b < length N" by auto
      then have "(heap st @ N) ! task_node x = N ! (task_node x - ?b)" by (simp add: nth_append)
      with tasks_of_task[OF x] b show ?thesis
        unfolding task_at_url by (simp add: url_at_def)
    qed
    have "set (pending st1) = set (pending st) \<union> task_node ` set (tasks_of ?b N)"
      by (auto simp: pending_def st1(4,5))
    with old new show "\<forall>a \<in> set (pending st1). task_at (heap st @ N) a" by blast
  qed
  from start_cases[OF assms(3)] show ?thesis
  proof (elim disjE exE conjE)
    fix snap doc st0
    assume a: "args = [ArgNode snap]" and r: "startWithSnapshot snap st = Some (Inr st0)"
      and s: "st' = st0\<lparr>started := True\<rparr>" and j: "json_tree snap = Some doc"
    let ?N = "objects ?b (reset_states doc)"
    have t: "tasks_of ?b ?N = redispatch ?b doc"
      by (simp add: objects_tasks redispatch_reset)
    have ur: "urls_of ?N = task_urls snap"
      by (simp add: objects_urls task_urls_reset task_urls_json_tree[OF j])
    have ne: "?N \<noteq> []" by (cases "reset_states doc") simp_all
    from a assms(2) have d: "distinct (urls_of ?N)" by (simp add: ur)
    show ?thesis
      by (rule fresh[OF ne grows_objects closed_objects[OF ch] d])
         (use r in \<open>auto simp: s startWithSnapshot_doc[OF j] t ur task_urls_json_tree[OF j] onDone_def\<close>)
  next
    fix t u st0
    assume a: "args = [ArgStr t, ArgStr u]" and r: "startWithEntry t u st = Inr st0"
      and s: "st' = st0\<lparr>started := True\<rparr>"
    show ?thesis
    proof (cases "s_distinct (options st) \<and> u \<in> urlSet st")
      case True
      with r s assms(1) show ?thesis
        by (auto simp: startWithEntry_result inv2_uinv)
    next
      case False
      let ?N = "[TaskNode Waiting t u []]"
      have g: "grows (heap st) (heap st @ ?N)" by (rule grows_append) simp
      have c: "closed (heap st @ ?N)" by (rule closed_append[OF ch]) simp
      show ?thesis
        by (rule fresh[OF _ g c]) (use False r in \<open>auto simp: s startWithEntry_result\<close>)
    qed
  next
    assume "st' = st\<lparr>started := True\<rparr>"
    with assms(1) show ?thesis by (simp add: inv2_uinv)
  qed
qed

lemma snapshot_inv2:
  assumes "inv2 st" "snapshot st = Inr (a, st')"
  shows "inv2 st'"
  using snapshot_result[OF assms(2)]
proof (elim disjE exE conjE)
  assume "st' = st"
  with assms(1) show ?thesis by simp
next
  fix r t doc
  assume s: "st' = st\<lparr>heap := heap st @ objects (length (heap st)) doc\<rparr>"
  from assms(1) have u0: "uinv (heap st) (crawlTree st) (urlSet st)"
    and p0: "\<forall>a \<in> set (pending st). task_at (heap st) a" by (simp_all add: inv2_uinv)
  from u0 have ch: "closed (heap st)" by (simp add: uinv_def)
  from uinv_append[OF u0 closed_objects[OF ch]] p0 grows_task_at[OF grows_objects]
  show ?thesis unfolding s inv2_uinv by auto
qed

lemma perform_inv2:
  assumes "inv2 st" "s_distinct (options st)" "urls_ok_action act" "perform act st = Some (Inr st')"
  shows "inv2 st'"
proof (cases act)
  case (Register t f)
  with assms show ?thesis
    by (auto simp: perform_def register_def inv2_uinv split: if_splits)
next
  case (Start args)
  with assms start_inv2[of st args st'] show ?thesis by (simp add: perform_def)
next
  case Stop
  with assms show ?thesis by (auto simp: perform_def stop_def inv2_uinv)
next
  case Snapshot
  with assms(4) obtain a where "snapshot st = Inr (a, st')"
    by (cases "snapshot st") (auto simp: perform_def)
  with assms(1) show ?thesis by (rule snapshot_inv2)
next
  case (Run i)
  let ?st0 = "st\<lparr>taskQueue := remove_nth i (taskQueue st)\<rparr>"
  from Run assms(4) have i: "i < length (taskQueue st)"
    and s: "st' = task_begin (taskQueue st ! i) ?st0"
    by (auto simp: perform_def split: if_splits)
  from assms(1) have u0: "uinv (heap ?st0) (crawlTree ?st0) (urlSet ?st0)"
    and p: "\<forall>a \<in> set (pending st). task_at (heap st) a" by (simp_all add: inv2_uinv)
  from p set_remove_nth[of i "taskQueue st"] have p0: "\<forall>a \<in> set (pending ?st0). task_at (heap ?st0) a"
    by (auto simp: pending_def)
  from p i have "task_at (heap ?st0) (task_node (taskQueue st ! i))"
    by (simp add: pending_def)
  from task_begin_inv2[OF u0 p0 this] show ?thesis unfolding s .
next
  case (Settle i)
  let ?st0 = "st\<lparr>inflight := remove_nth i (inflight st)\<rparr>"
  from Settle assms(4) have i: "i < length (inflight st)"
    and s: "st' = task_settle (fst (inflight st ! i)) (snd (inflight st ! i) (task_url (fst (inflight st ! i)))) ?st0"
    by (auto simp: perform_def split: if_splits prod.splits)
  from assms(1) have u0: "uinv (heap ?st0) (crawlTree ?st0) (urlSet ?st0)"
    and p: "\<forall>a \<in> set (pending st). task_at (heap st) a" by (simp_all add: inv2_uinv)
  from p set_remove_nth[of i "inflight st"] have p0: "\<forall>a \<in> set (pending ?st0). task_at (heap ?st0) a"
    by (auto simp: pending_def)
  from p i have "task_at (heap ?st0) (task_node (fst (inflight st ! i)))"
    by (simp add: pending_def)
  from task_settle_inv2[OF u0 p0 this] assms(2) show ?thesis unfolding s by simp
next
  case PoolEmpty
  with assms show ?thesis
    by (auto simp: perform_def inv2_uinv split: if_splits)
next
  case Tick
  with assms show ?thesis
    by (auto simp: perform_def inv2_uinv split: if_splits list.splits)
qed

lemma startWithSnapshot_frame:
  "startWithSnapshot snap st = Some (Inr st') \<Longrightarrow>
     options st' = options st \<and> urlSet st \<subseteq> urlSet st'"
  by (cases "json_tree snap")
     (auto simp: startWithSnapshot_throws startWithSnapshot_doc onDone_def)

lemma task_settle_frame:
  "options (task_settle tk out st) = options st \<and> urlSet st \<subseteq> urlSet (task_settle tk out st)"
proof (cases out)
  case (Rejected q e)
  then show ?thesis by (simp add: task_settle_def catch_fail_def)
next
  case (Resolved q)
  show ?thesis
  proof (cases "exec (Some (task_node tk)) q st")
    case (Inl e)
    with Resolved show ?thesis by (simp add: task_settle_def catch_fail_def)
  next
    case (Inr st1)
    with Resolved exec_frame[OF Inr] exec_urlSet[OF Inr] show ?thesis
      by (simp add: task_settle_def)
  qed
qed

lemma start_frame:
  assumes "start args st = Some (Inr st')"
  shows "options st' = options st \<and> urlSet st \<subseteq> urlSet st'"
  using start_cases[OF assms]
proof (elim disjE exE conjE)
  fix snap doc st0
  assume "startWithSnapshot snap st = Some (Inr st0)" "st' = st0\<lparr>started := True\<rparr>"
  with startWithSnapshot_frame[of snap st st0] show ?thesis by simp
next
  fix t u st0
  assume "startWithEntry t u st = Inr st0" "st' = st0\<lparr>started := True\<rparr>"
  then show ?thesis by (auto simp: startWithEntry_result split: if_splits)
next
  assume "st' = st\<lparr>started := True\<rparr>"
  then show ?thesis by simp
qed

lemma perform_frame:
  assumes "perform act st = Some (Inr st')"
  shows "options st' = options st \<and> urlSet st \<subseteq> urlSet st'"
proof (cases act)
  case (Register t f)
  with assms show ?thesis by (auto simp: perform_def register_def split: if_splits)
next
  case (Start args)
  with assms have "start args st = Some (Inr st')" by (simp add: perform_def)
  then show ?thesis by (rule start_frame)
next
  case Stop
  with assms show ?thesis by (auto simp: perform_def stop_def)
next
  case Snapshot
  with assms obtain a where "snapshot st = Inr (a, st')"
    by (cases "snapshot st") (auto simp: perform_def)
  from snapshot_result[OF this] show ?thesis by auto
next
  case (Run i)
  with assms show ?thesis
    by (auto simp: perform_def task_begin_def catch_fail_def split: if_splits option.splits)
next
  case (Settle i)
  with assms have "st' = task_settle (fst (inflight st ! i))
      (snd (inflight st ! i) (task_url (fst (inflight st ! i))))
      (st\<lparr>inflight := remove_nth i (inflight st)\<rparr>)"
    by (auto simp: perform_def split: if_splits prod.splits)
  with task_settle_frame[of "fst (inflight st ! i)" _ "st\<lparr>inflight := remove_nth i (inflight st)\<rparr>"]
  show ?thesis by simp
next
  case PoolEmpty
  with assms show ?thesis by (auto simp: perform_def split: if_splits)
next
  case Tick
  with assms show ?thesis by (auto simp: perform_def split: if_splits list.splits)
qed

lemma run_frame: "run acts st = Some st' \<Longrightarrow> options st' = options st \<and> urlSet st \<subseteq> urlSet st'"
proof (induction acts arbitrary: st)
  case Nil
  then show ?case by simp
next
  case (Cons act acts)
  show ?case
  proof (cases "perform act st")
    case None
    with Cons.prems show ?thesis by simp
  next
    case (Some r)
    show ?thesis
    proof (cases r)
      case (Inl e)
      with Some Cons show ?thesis by simp
    next
      case (Inr st1)
      with Some Cons.prems have "run acts st1 = Some st'" by simp
      from Cons.IH[OF this] perform_frame[of act st st1] Some Inr show ?thesis by auto
    qed
  qed
qed

lemma run_inv2:
  "inv2 st \<Longrightarrow> s_distinct (options st) \<Longrightarrow> list_all urls_ok_action acts \<Longrightarrow>
   run acts st = Some st' \<Longrightarrow> inv2 st'"
proof (induction acts arbitrary: st)
  case Nil
  then show ?case by simp
next
  case (Cons act acts)
  show ?case
  proof (cases "perform act st")
    case None
    with Cons.prems show ?thesis by simp
  next
    case (Some r)
    show ?thesis
    proof (cases r)
      case (Inl e)
      with Some Cons show ?thesis by simp
    next
      case (Inr st1)
      with Some Cons.prems perform_inv2[of st act st1] perform_frame[of act st st1]
      have 1: "inv2 st1" "s_distinct (options st1)" by simp_all
      from Inr Some Cons.prems have "run acts st1 = Some st'" by simp
      with Cons.IH[OF 1] Cons.prems(3) show ?thesis by simp
    qed
  qed
qed

lemma init_inv2: "inv2 (init opts)"
  by (simp add: inv2_def closed_def pending_def init_def urls_unique_def urls_recorded_def
      nodes_of_def)

text \<open>
  C2. The claim: with deduplication enabled, in every run, no two task nodes of the tree
  share a URL. The code does not deduplicate the tree it restores: a snapshot that repeats
  a URL (one taken from a run without deduplication, say) is restored as it is.
\<close>

theorem duplicate_urls_after_resume:
  "\<exists>st. run [Start [ArgNode (TaskT Done ''root'' ''a''
                  [TaskT Done ''leaf'' ''b'' [], TaskT Done ''leaf'' ''b'' []])]]
           (init plain_opts) = Some st \<and>
        s_distinct (options st) \<and> 1 \<in> nodes_of st \<and> 2 \<in> nodes_of st \<and>
        url_at (heap st) 1 = Some ''b'' \<and> url_at (heap st) 2 = Some ''b''"
proof -
  let ?S = "(init plain_opts)\<lparr>heap := [TaskNode Done ''root'' ''a'' [1, 2],
        TaskNode Done ''leaf'' ''b'' [], TaskNode Done ''leaf'' ''b'' []],
      crawlTree := Some 0, urlSet := {''a'', ''b''}, timers := [DoneEv], started := True\<rparr>"
  have r: "run [Start [ArgNode (TaskT Done ''root'' ''a''
                  [TaskT Done ''leaf'' ''b'' [], TaskT Done ''leaf'' ''b'' []])]]
           (init plain_opts) = Some ?S"
    by (simp add: perform_def start_def and_then_def startWithSnapshot_doc onDone_def init_def)
  have d: "s_distinct (options ?S)"
    by (simp add: init_def plain_opts_def assign_opts_def defaultOpts_def)
  have n1: "1 \<in> nodes_of ?S"
    unfolding nodes_of_def by simp (rule tree_nodes.child_node[OF tree_nodes.root_node], simp_all)
  have n2: "2 \<in> nodes_of ?S"
    unfolding nodes_of_def by simp (rule tree_nodes.child_node[OF tree_nodes.root_node], simp_all)
  have u: "url_at (heap ?S) 1 = Some ''b''" "url_at (heap ?S) 2 = Some ''b''"
    by (simp_all add: url_at_def)
  from r d n1 n2 u show ?thesis by blast
qed

text \<open>
  C2, amended. With deduplication enabled, in every run started from an entry or from
  snapshots that do not repeat a URL, no two task nodes of the tree share a URL, and the
  URL of every task node of the tree is recorded; a call of the collector with a recorded
  URL is skipped (no node, no dispatch), and the record never shrinks.
\<close>

theorem urls_unique_in_tree:
  assumes "run acts (init opts) = Some st" "s_distinct (options (init opts))"
    "list_all urls_ok_action acts"
  shows "(\<forall>a b u. a \<in> nodes_of st \<and> b \<in> nodes_of st \<and>
            url_at (heap st) a = Some u \<and> url_at (heap st) b = Some u \<longrightarrow> a = b)
     \<and> (\<forall>a u. a \<in> nodes_of st \<and> url_at (heap st) a = Some u \<longrightarrow> u \<in> urlSet st)
     \<and> (\<forall>tn t u q. u \<in> urlSet st \<longrightarrow> exec tn (AddTask t u # q) st = exec tn q st)
     \<and> (\<forall>acts' st'. run acts' st = Some st' \<longrightarrow> urlSet st \<subseteq> urlSet st')"
proof -
  from run_inv2[OF init_inv2 assms(2,3,1)] have inv: "inv2 st" .
  from run_frame[OF assms(1)] assms(2) have d: "s_distinct (options st)" by simp
  from inv have "\<forall>a b u. a \<in> nodes_of st \<and> b \<in> nodes_of st \<and>
            url_at (heap st) a = Some u \<and> url_at (heap st) b = Some u \<longrightarrow> a = b"
    by (simp add: inv2_def urls_unique_def)
  moreover from inv have "\<forall>a u. a \<in> nodes_of st \<and> url_at (heap st) a = Some u \<longrightarrow> u \<in> urlSet st"
    by (simp add: inv2_def urls_recorded_def)
  moreover from d have "\<forall>tn t u q. u \<in> urlSet st \<longrightarrow> exec tn (AddTask t u # q) st = exec tn q st"
    by simp
  moreover have "\<forall>acts' st'. run acts' st = Some st' \<longrightarrow> urlSet st \<subseteq> urlSet st'"
    using run_frame by blast
  ultimately show ?thesis by blast
qed


theorem urls_unique_in_tree_witness:
  "\<exists>st. run [Register ''root'' example_root, Start [ArgStr ''root'', ArgStr ''a''], Run 0, Settle 0]
          (init plain_opts) = Some st \<and>
        ''b'' \<in> urlSet st \<and> exec (Some 0) [AddTask ''leaf'' ''b''] st = Inr st"
proof -
  let ?acts = "[Register ''root'' example_root, Start [ArgStr ''root'', ArgStr ''a''], Run 0, Settle 0]"
  let ?S = "(init plain_opts)\<lparr>heap := [TaskNode Done ''root'' ''a'' [1, 2], DataNode (Some (JNum 1)),
        TaskNode Waiting ''leaf'' ''b'' []],
      crawlTree := Some 0, urlSet := {''a'', ''b''}, templates := [''root'' \<mapsto> example_root],
      taskQueue := [\<lparr>task_node = 2, task_template = ''leaf'', task_url = ''b''\<rparr>],
      timers := [DataEv (JNum 1)], busy := True, started := True\<rparr>"
  have r: "run ?acts (init plain_opts) = Some ?S"
    by (simp add: perform_def register_def start_def and_then_def startWithEntry_result
        task_begin_def task_settle_def remove_nth_def init_def plain_opts_def assign_opts_def
        defaultOpts_def example_root_def alloc_def createDataNode_def createTaskNode_def
        push_child_def set_state_def deref_def addTask_def insert_commute)
  have d: "s_distinct (options (init plain_opts))"
    by (simp add: init_def plain_opts_def assign_opts_def defaultOpts_def)
  have o: "list_all urls_ok_action ?acts" by simp
  have b: "''b'' \<in> urlSet ?S" by simp
  from urls_unique_in_tree[OF r d o]
  have "\<forall>tn t u q. u \<in> urlSet ?S \<longrightarrow> exec tn (AddTask t u # q) ?S = exec tn q ?S" by blast
  with b have "exec (Some 0) [AddTask ''leaf'' ''b''] ?S = exec (Some 0) [] ?S" by blast
  with r b show ?thesis by (metis exec.simps(1))
qed

section \<open>The crawl tree of a run is a stored tree\<close>

lemma root_graft [simp]: "root (graft p new T) = root T"
  by (cases T) simp

lemma shape_append: "shape h T \<Longrightarrow> shape (h @ N) T"
proof -
  assume s: "shape h T"
  have "\<forall>a \<in> set (preorder T). deref (h @ N) a = deref h a"
    using preorder_lt[OF s] by (simp add: deref_append)
  from shape_val_frame[OF s this] show ?thesis by simp
qed

lemma shape_set_state: "shape h T \<Longrightarrow> shape (set_state h p s) T"
  by (rule shape_same_shape) (simp_all add: same_shape_def skeleton_set_state)

lemma shape_graft:
  assumes p: "p < length h" "h ! p = TaskNode s t u cs" and N: "\<forall>n \<in> set N. kids n = []"
  shows "shape h T \<Longrightarrow>
         shape ((h @ N)[p := TaskNode s' t u (cs @ [length h..<length h + length N])])
               (graft p (leaves [length h..<length h + length N]) T)"
proof (induction T)
  case (ANode a Ts)
  let ?h' = "(h @ N)[p := TaskNode s' t u (cs @ [length h..<length h + length N])]"
  let ?new = "leaves [length h..<length h + length N]"
  from ANode.prems obtain n where n: "deref h a = Some n" by (auto split: option.splits)
  then have a: "a < length h" "h ! a = n" by (auto simp: deref_def split: if_splits)
  have leaf: "shape ?h' (ANode b [])" if b: "b \<in> set [length h..<length h + length N]" for b
  proof -
    from b have i: "length h \<le> b" "b - length h < length N" by auto
    with p(1) have e: "deref ?h' b = Some (N ! (b - length h))"
      by (simp add: deref_def nth_append)
    from i N have "kids (N ! (b - length h)) = []" by simp
    with e show ?thesis by (cases "N ! (b - length h)") simp_all
  qed
  then have newok: "list_all (shape ?h') ?new"
    by (simp add: leaves_def list_all_iff)
  have rnew: "map root ?new = [length h..<length h + length N]"
    by (simp add: leaves_def comp_def)
  show ?case
  proof (cases n)
    case (DataNode d)
    with a p have "a \<noteq> p" by auto
    with a DataNode n ANode.prems show ?thesis by (simp add: deref_def nth_append)
  next
    case (TaskNode s0 t0 u0 cs0)
    with n ANode.prems have cs0: "cs0 = map root Ts" and l: "list_all (shape h) Ts" by simp_all
    have sub: "list_all (shape ?h') (map (graft p ?new) Ts)"
      using ANode.IH l by (simp add: list_all_iff)
    show ?thesis
    proof (cases "a = p")
      case True
      with a p TaskNode have "cs = map root Ts" using cs0 by simp
      with True p sub newok rnew show ?thesis
        by (simp add: deref_def comp_def)
    next
      case False
      with a TaskNode have "deref ?h' a = Some (TaskNode s0 t0 u0 cs0)"
        by (simp add: deref_def nth_append)
      with False cs0 sub show ?thesis by (simp add: comp_def)
    qed
  qed
qed

lemma winv_I:
  "(\<And>r. crawlTree st = Some r \<Longrightarrow> \<exists>T. root T = r \<and> shape (heap st) T) \<Longrightarrow>
   (\<forall>a \<in> set (pending st). task_at (heap st) a) \<Longrightarrow> winv st"
  by (simp add: winv_def)

lemma catch_fail_winv: "winv st \<Longrightarrow> winv (catch_fail tk e st)"
  unfolding winv_def catch_fail_def
  using shape_set_state grows_task_at[OF grows_set_state]
  by (simp; blast)

lemma task_begin_winv:
  "winv st \<Longrightarrow> task_at (heap st) (task_node tk) \<Longrightarrow> winv (task_begin tk st)"
  using catch_fail_winv[of st tk]
  by (auto simp: task_begin_def split: option.splits) (auto simp: winv_def pending_def)

lemma task_settle_winv:
  assumes "winv st" "task_at (heap st) (task_node tk)"
  shows "winv (task_settle tk out st)"
proof (cases out)
  case (Rejected q e)
  with catch_fail_winv[OF assms(1)] show ?thesis by (simp add: task_settle_def)
next
  case (Resolved q)
  from assms(2) obtain s t u cs where
    d: "deref (heap st) (task_node tk) = Some (TaskNode s t u cs)"
    by (auto simp: task_at_def)
  then have p: "task_node tk < length (heap st)" "heap st ! task_node tk = TaskNode s t u cs"
    by (auto simp: deref_def split: if_splits)
  let ?N = "produced (s_distinct (options st)) (urlSet st) q"
  let ?h' = "(heap st @ ?N)[task_node tk := TaskNode Done t u (cs @ [length (heap st)..<length (heap st) + length ?N])]"
  have g: "grows (heap st) ?h'" by (rule grows_commit[OF p produced_kids])
  have old: "\<forall>a \<in> set (pending st). task_at ?h' a"
    using assms(1) grows_task_at[OF g] by (auto simp: winv_def)
  have new: "task_at ?h' (task_node x)" if x: "x \<in> set (tasks_of (length (heap st)) ?N)" for x
  proof -
    from tasks_of_bounds[OF x] have b: "length (heap st) \<le> task_node x"
      "task_node x - length (heap st) < length ?N" by auto
    with p(1) have "?h' ! task_node x = ?N ! (task_node x - length (heap st))"
      by (simp add: nth_append)
    with tasks_of_task[OF x] b show ?thesis
      unfolding task_at_url by (simp add: url_at_def)
  qed
  have sh: "\<exists>T. root T = r \<and> shape ?h' T" if "crawlTree st = Some r" for r
  proof -
    from that assms(1) obtain T where T: "root T = r" "shape (heap st) T" by (auto simp: winv_def)
    from shape_graft[OF p produced_kids T(2), where s' = Done] T(1) show ?thesis
      by (intro exI[of _ "graft (task_node tk) (leaves [length (heap st)..<length (heap st) + length ?N]) T"]) simp
  qed
  from sh old new show ?thesis
    unfolding Resolved task_settle_resolved_gen[OF d] winv_def
    by (auto simp: pending_def)
qed

lemma start_winv:
  assumes "winv st" "start args st = Some (Inr st')"
  shows "winv st'"
proof -
  let ?b = "length (heap st)"
  from assms(1) have p0: "\<forall>a \<in> set (pending st). task_at (heap st) a" by (simp add: winv_def)
  have fresh: "winv st1"
    if N: "grows (heap st) (heap st @ N)" "shape (heap st @ N) T" "root T = ?b"
      and st1: "heap st1 = heap st @ N" "crawlTree st1 = Some ?b"
        "taskQueue st1 = taskQueue st @ tasks_of ?b N" "inflight st1 = inflight st"
    for N T st1
  proof (rule winv_I)
    fix r assume "crawlTree st1 = Some r"
    with st1 N show "\<exists>T. root T = r \<and> shape (heap st1) T" by auto
  next
    have old: "\<forall>a \<in> set (pending st). task_at (heap st @ N) a"
      using p0 grows_task_at[OF N(1)] by blast
    have new: "task_at (heap st @ N) (task_node x)" if x: "x \<in> set (tasks_of ?b N)" for x
    proof -
      from tasks_of_bounds[OF x] have b: "?b \<le> task_node x" "task_node x - ?b < length N" by auto
      then have "(heap st @ N) ! task_node x = N ! (task_node x - ?b)" by (simp add: nth_append)
      with tasks_of_task[OF x] b show ?thesis
        unfolding task_at_url by (simp add: url_at_def)
    qed
    have "set (pending st1) = set (pending st) \<union> task_node ` set (tasks_of ?b N)"
      by (auto simp: pending_def st1(3,4))
    with old new show "\<forall>a \<in> set (pending st1). task_at (heap st1) a"
      unfolding st1(1) by blast
  qed
  from start_cases[OF assms(2)] show ?thesis
  proof (elim disjE exE conjE)
    fix snap doc st0
    assume r: "startWithSnapshot snap st = Some (Inr st0)" and s: "st' = st0\<lparr>started := True\<rparr>"
      and j: "json_tree snap = Some doc"
    let ?doc = "reset_states doc"
    let ?N = "objects ?b ?doc"
    have t: "tasks_of ?b ?N = redispatch ?b doc"
      by (simp add: objects_tasks redispatch_reset)
    have sh: "shape (heap st @ ?N) (addr_tree ?b ?doc)"
      using shape_val_objects(1)[of "heap st" ?b ?doc "[]"] by simp
    show ?thesis
      by (rule fresh[OF grows_objects sh root_addr_tree])
         (use r in \<open>auto simp: s startWithSnapshot_doc[OF j] t onDone_def\<close>)
  next
    fix t u st0
    assume r: "startWithEntry t u st = Inr st0" and s: "st' = st0\<lparr>started := True\<rparr>"
    show ?thesis
    proof (cases "s_distinct (options st) \<and> u \<in> urlSet st")
      case True
      with r s assms(1) show ?thesis
        by (auto simp: startWithEntry_result winv_def)
    next
      case False
      let ?N = "[TaskNode Waiting t u []]"
      have g: "grows (heap st) (heap st @ ?N)" by (rule grows_append) simp
      have sh: "shape (heap st @ ?N) (ANode ?b [])" by (simp add: deref_def)
      show ?thesis
        by (rule fresh[OF g sh]) (use False r in \<open>auto simp: s startWithEntry_result\<close>)
    qed
  next
    assume "st' = st\<lparr>started := True\<rparr>"
    with assms(1) show ?thesis by (simp add: winv_def)
  qed
qed

lemma pending_remove_subset:
  "set (pending (st\<lparr>taskQueue := remove_nth i (taskQueue st)\<rparr>)) \<subseteq> set (pending st)"
  "set (pending (st\<lparr>inflight := remove_nth i (inflight st)\<rparr>)) \<subseteq> set (pending st)"
  using set_remove_nth[of i "taskQueue st"] set_remove_nth[of i "inflight st"]
  by (auto simp: pending_def)

lemma perform_winv:
  assumes "winv st" "perform act st = Some (Inr st')"
  shows "winv st'"
proof (cases act)
  case (Register t f)
  with assms show ?thesis
    by (auto simp: perform_def register_def winv_def split: if_splits)
next
  case (Start args)
  with assms start_winv[of st args st'] show ?thesis by (simp add: perform_def)
next
  case Stop
  with assms show ?thesis by (auto simp: perform_def stop_def winv_def)
next
  case Snapshot
  with assms(2) obtain a where "snapshot st = Inr (a, st')"
    by (cases "snapshot st") (auto simp: perform_def)
  from snapshot_result[OF this] assms(1) shape_append grows_task_at[OF grows_objects]
  show ?thesis unfolding winv_def by (elim disjE exE conjE) (simp, simp, blast)
next
  case (Run i)
  let ?st0 = "st\<lparr>taskQueue := remove_nth i (taskQueue st)\<rparr>"
  from Run assms(2) have i: "i < length (taskQueue st)"
    and s: "st' = task_begin (taskQueue st ! i) ?st0"
    by (auto simp: perform_def split: if_splits)
  from assms(1) pending_remove_subset(1)[of i st] have "winv ?st0"
    unfolding winv_def by (simp; blast)
  moreover from assms(1) i have "task_at (heap ?st0) (task_node (taskQueue st ! i))"
    by (simp add: winv_def pending_def)
  ultimately show ?thesis unfolding s by (rule task_begin_winv)
next
  case (Settle i)
  let ?st0 = "st\<lparr>inflight := remove_nth i (inflight st)\<rparr>"
  from Settle assms(2) have i: "i < length (inflight st)"
    and s: "st' = task_settle (fst (inflight st ! i)) (snd (inflight st ! i) (task_url (fst (inflight st ! i)))) ?st0"
    by (auto simp: perform_def split: if_splits prod.splits)
  from assms(1) pending_remove_subset(2)[of i st] have "winv ?st0"
    unfolding winv_def by (simp; blast)
  moreover from assms(1) i have "task_at (heap ?st0) (task_node (fst (inflight st ! i)))"
    by (simp add: winv_def pending_def)
  ultimately show ?thesis unfolding s by (rule task_settle_winv)
next
  case PoolEmpty
  with assms show ?thesis
    by (auto simp: perform_def winv_def split: if_splits)
next
  case Tick
  with assms show ?thesis
    by (auto simp: perform_def winv_def split: if_splits list.splits)
qed

lemma run_winv: "winv st \<Longrightarrow> run acts st = Some st' \<Longrightarrow> winv st'"
proof (induction acts arbitrary: st)
  case Nil
  then show ?case by simp
next
  case (Cons act acts)
  show ?case
  proof (cases "perform act st")
    case None
    with Cons.prems show ?thesis by simp
  next
    case (Some r)
    show ?thesis
    proof (cases r)
      case (Inl e)
      with Some Cons show ?thesis by simp
    next
      case (Inr st1)
      with Some Cons.prems perform_winv[of st act st1] have "winv st1" by simp
      moreover from Inr Some Cons.prems have "run acts st1 = Some st'" by simp
      ultimately show ?thesis by (rule Cons.IH)
    qed
  qed
qed

lemma run_shape:
  assumes "run acts (init opts) = Some st" "crawlTree st = Some r"
  shows "\<exists>T. root T = r \<and> shape (heap st) T"
proof -
  have "winv (init opts)" by (simp add: winv_def init_def pending_def)
  from run_winv[OF this assms(1)] assms(2) show ?thesis by (simp add: winv_def)
qed

lemma example_run_state: "run example_run (init plain_opts) = Some example_state"
  by (simp add: example_run_def example_state_def perform_def register_def start_def and_then_def
      startWithEntry_result task_begin_def task_settle_def remove_nth_def init_def plain_opts_def
      assign_opts_def defaultOpts_def example_root_def alloc_def createDataNode_def
      createTaskNode_def push_child_def set_state_def deref_def addTask_def insert_commute)

lemma example_state_shape: "shape (heap example_state) (ANode 0 [ANode 1 [], ANode 2 []])"
  by (simp add: example_state_def deref_def)

section \<open>Results of a run\<close>

text \<open>
  C3. For every non-empty crawl tree, \<^verbatim>\<open>getResults()\<close> returns the payloads of all data
  nodes in depth-first, left-to-right order, and a flag that is true exactly when every task
  node of the tree is done. In every state of a run in which the root is set, the store
  holds a tree \<open>T\<close> at the root, and the results are those of \<open>T\<close>.
\<close>

theorem getResults_preorder:
  assumes "run acts (init opts) = Some st" "crawlTree st = Some r"
  shows "\<exists>T. root T = r \<and> shape (heap st) T \<and>
           getResults st =
             Some (Inr \<lparr>list = data_of (val (heap st) T), complete = all_done (val (heap st) T)\<rparr>)"
proof -
  from run_shape[OF assms] obtain T where T: "root T = r" "shape (heap st) T" by blast
  with assms(2) have "crawlTree st = Some (root T)" by simp
  from getResults_shape[OF this T(2)] T show ?thesis by blast
qed

theorem getResults_preorder_witness:
  "\<exists>st. run example_run (init plain_opts) = Some st \<and>
     getResults st = Some (Inr \<lparr>list = [JNum 1], complete = False\<rparr>)"
proof -
  have c: "crawlTree example_state = Some 0" by (simp add: example_state_def)
  from getResults_preorder[OF example_run_state c] obtain T where
    T: "root T = 0" "shape (heap example_state) T"
      "getResults example_state =
         Some (Inr \<lparr>list = data_of (val (heap example_state) T),
                    complete = all_done (val (heap example_state) T)\<rparr>)" by blast
  from shape_unique[OF T(2) example_state_shape] T(1) have "T = ANode 0 [ANode 1 [], ANode 2 []]"
    by simp
  with T(3) have "getResults example_state = Some (Inr \<lparr>list = [JNum 1], complete = False\<rparr>)"
    by (simp add: example_state_def deref_def)
  with example_run_state show ?thesis by blast
qed

section \<open>Snapshots of a run\<close>

text \<open>
  C8, amended. In every state of a run in which the root is set, the store holds a tree
  \<open>T\<close> at the root. When a payload of the tree is one that JSON refuses (a BigInt, a
  circular structure), \<^verbatim>\<open>snapshot()\<close> throws a \<^verbatim>\<open>TypeError\<close>. Otherwise it appends fresh
  objects to the store and returns their root, and the tree itself is untouched. The copy
  \<open>T'\<close> holds the document of the tree: it has the structure of the tree (kinds, states,
  templates, URLs, order of children), all its payloads are JSON values, and it is equal
  in value to the tree exactly when every payload of the tree is a JSON value. It shares no
  node with the tree, and its value depends on its own nodes only. Serializing the copy
  gives back its value, and parsing that again gives an equal tree: the round trip of a
  snapshot loses nothing.
\<close>

theorem snapshot_copy:
  assumes "run acts (init opts) = Some st" "crawlTree st = Some r"
  shows "\<exists>T. root T = r \<and> shape (heap st) T \<and>
          (case json_tree (val (heap st) T) of
             None \<Rightarrow> snapshot st = Inl TypeError \<and> \<not> plain_tree (val (heap st) T)
           | Some doc \<Rightarrow>
               (\<exists>h' T'. snapshot st = Inr (Some (root T'), st\<lparr>heap := h'\<rparr>) \<and>
                  h' = heap st @ objects (length (heap st)) doc \<and>
                  shape h' T \<and> val h' T = val (heap st) T \<and>
                  shape h' T' \<and> val h' T' = doc \<and>
                  outline (val h' T') = outline (val (heap st) T) \<and>
                  plain_tree (val h' T') \<and>
                  (val h' T' = val (heap st) T \<longleftrightarrow> plain_tree (val (heap st) T)) \<and>
                  set (preorder T') \<inter> set (preorder T) = {} \<and>
                  (\<forall>h2. (\<forall>a \<in> set (preorder T'). deref h2 a = deref h' a) \<longrightarrow>
                        shape h2 T' \<and> val h2 T' = val h' T') \<and>
                  stringify h' (root T') = Inr (val h' T') \<and>
                  (\<forall>h3. val (snd (parse (val h' T') h3))
                          (addr_tree (fst (parse (val h' T') h3)) (val h' T'))
                        = val h' T')))"
proof -
  from run_shape[OF assms] obtain T where T: "root T = r" "shape (heap st) T" by blast
  with assms(2) have "crawlTree st = Some (root T)" by simp
  from snapshot_shape[OF this T(2)] T show ?thesis by blast
qed

theorem snapshot_copy_witness:
  "\<exists>st h' T'. run example_run (init plain_opts) = Some st \<and>
     snapshot st = Inr (Some (root T'), st\<lparr>heap := h'\<rparr>) \<and>
     val h' T' = TaskT Done ''root'' ''a'' [DataT (Some (JNum 1)), TaskT Waiting ''leaf'' ''b'' []] \<and>
     set (preorder T') \<inter> {0, 1, 2} = {}"
proof -
  have c: "crawlTree example_state = Some 0" by (simp add: example_state_def)
  from snapshot_copy[OF example_run_state c] obtain T where
    T: "root T = 0" "shape (heap example_state) T"
    and k: "case json_tree (val (heap example_state) T) of
             None \<Rightarrow> snapshot example_state = Inl TypeError \<and>
                     \<not> plain_tree (val (heap example_state) T)
           | Some doc \<Rightarrow>
               (\<exists>h' T'. snapshot example_state = Inr (Some (root T'), example_state\<lparr>heap := h'\<rparr>) \<and>
                  h' = heap example_state @ objects (length (heap example_state)) doc \<and>
                  shape h' T \<and> val h' T = val (heap example_state) T \<and>
                  shape h' T' \<and> val h' T' = doc \<and>
                  outline (val h' T') = outline (val (heap example_state) T) \<and>
                  plain_tree (val h' T') \<and>
                  (val h' T' = val (heap example_state) T \<longleftrightarrow>
                     plain_tree (val (heap example_state) T)) \<and>
                  set (preorder T') \<inter> set (preorder T) = {} \<and>
                  (\<forall>h2. (\<forall>a \<in> set (preorder T'). deref h2 a = deref h' a) \<longrightarrow>
                        shape h2 T' \<and> val h2 T' = val h' T') \<and>
                  stringify h' (root T') = Inr (val h' T') \<and>
                  (\<forall>h3. val (snd (parse (val h' T') h3))
                          (addr_tree (fst (parse (val h' T') h3)) (val h' T'))
                        = val h' T'))"
    by blast
  from shape_unique[OF T(2) example_state_shape] T(1) have e: "T = ANode 0 [ANode 1 [], ANode 2 []]"
    by simp
  have v: "val (heap example_state) T
           = TaskT Done ''root'' ''a'' [DataT (Some (JNum 1)), TaskT Waiting ''leaf'' ''b'' []]"
    unfolding e by (simp add: example_state_def deref_def)
  have j: "json_tree (val (heap example_state) T) = Some (val (heap example_state) T)"
    unfolding v by simp
  from k obtain h' T' where
    s: "snapshot example_state = Inr (Some (root T'), example_state\<lparr>heap := h'\<rparr>)"
    and w: "val h' T' = val (heap example_state) T"
    and d: "set (preorder T') \<inter> set (preorder T) = {}"
    unfolding j by auto
  from d have "set (preorder T') \<inter> {0, 1, 2} = {}"
    unfolding e by simp
  with example_run_state s w v show ?thesis by metis
qed

end
